theory Spec2Isabelle
  imports
    Main
    "HOL-Library.Word"
    "HOL-Library.AList"
    "HOL-Library.Sublist"
    "HOL-Library.Char_ord"
    "HOL-Library.List_Lexorder"
begin

unbundle bit_operations_syntax

section \<open>Data model of ccusage-go (latest version of main.go)\<close>

text \<open>
  Go's \<^verbatim>\<open>int\<close> and \<^verbatim>\<open>int64\<close> are 64-bit two's-complement integers on the
  platforms the program is built for: they are modelled as \<^typ>\<open>64 word\<close>, so that
  \<open>+\<close> wraps as in Go, and Go's \<^verbatim>\<open>>\<close> on them is the signed comparison
  \<open><s\<close>. A Go map is an association list read with \<^const>\<open>map_of\<close> and written with
  \<^const>\<open>AList.update\<close>; the order of the list stands for one of the orders in which
  \<^verbatim>\<open>range\<close> may enumerate the map. A \<^verbatim>\<open>map[string]bool\<close> that only ever stores
  \<^verbatim>\<open>true\<close> is a set. Counters of files and lines are natural numbers.
\<close>

type_synonym goint = "64 word"

type_synonym ('k, 'v) gomap = "('k \<times> 'v) list"

record LogEntry =
  Timestamp :: string
  RequestID :: string
  Message_ID :: string
  Message_Model :: string
  Usage_InputTokens :: goint
  Usage_OutputTokens :: goint
  Usage_CacheCreationTokens :: goint
  Usage_CacheReadTokens :: goint

record EntryData =
  Key :: string
  Date :: string
  Model :: string
  InputTokens :: goint
  OutputTokens :: goint
  CacheCreationTokens :: goint
  CacheReadTokens :: goint

record FileStats =
  LinesRead :: nat
  LinesParsed :: nat
  EntriesNew :: nat

definition CacheVersion :: goint where
  "CacheVersion = 2"

record FileCacheEntry =
  ModTime :: goint
  Size :: goint
  Entries :: "EntryData list"

record CacheFile =
  Version :: goint
  Timezone :: string
  Files :: "(string, FileCacheEntry) gomap"
  Dirs :: "(string, goint) gomap"
  LastFullWalk :: int

record cacheStats =
  hits :: nat
  misses :: nat
  totalLines :: nat
  totalNew :: nat
  conflicts :: nat

definition cacheStats0 :: cacheStats where
  "cacheStats0 = \<lparr>hits = 0, misses = 0, totalLines = 0, totalNew = 0, conflicts = 0\<rparr>"

section \<open>The merge rule of \<^verbatim>\<open>processWithCacheLoaded\<close>\<close>

definition entryTotalTokens :: "EntryData \<Rightarrow> goint" where
  "entryTotalTokens e =
     InputTokens e + OutputTokens e + CacheCreationTokens e + CacheReadTokens e"

text \<open>
  The body shared by the inner loops of phase 1 (lines 596-607) and phase 3
  (lines 658-669): one record is folded into \<^verbatim>\<open>allEntries\<close>.
\<close>

definition mergeEntry ::
  "(string, EntryData) gomap \<times> cacheStats \<Rightarrow> EntryData \<Rightarrow> (string, EntryData) gomap \<times> cacheStats"
where
  "mergeEntry acc e =
     (case acc of (allEntries, stats) \<Rightarrow>
        (case map_of allEntries (Key e) of
           Some existing \<Rightarrow>
             if entryTotalTokens existing <s entryTotalTokens e
             then (AList.update (Key e) e allEntries, stats\<lparr>conflicts := conflicts stats + 1\<rparr>)
             else (allEntries, stats)
         | None \<Rightarrow>
             (AList.update (Key e) e allEntries, stats\<lparr>totalNew := totalNew stats + 1\<rparr>)))"

definition mergeEntries ::
  "(string, EntryData) gomap \<times> cacheStats \<Rightarrow> EntryData list \<Rightarrow> (string, EntryData) gomap \<times> cacheStats"
where
  "mergeEntries acc es = foldl mergeEntry acc es"


section \<open>The environment: operating system and library calls\<close>

text \<open>
  Everything the program asks of its environment is a field of \<open>world\<close>:
  \<^item> \<open>os_Stat p\<close> is the result of \<^verbatim>\<open>os.Stat(p)\<close>: \<open>None\<close> for an error, otherwise
    \<^verbatim>\<open>(ModTime().UnixNano(), Size())\<close>;
  \<^item> \<open>os_Open p\<close> is \<open>None\<close> when \<^verbatim>\<open>os.Open(p)\<close> fails, otherwise the lines that
    \<^verbatim>\<open>scanner.Scan()\<close> delivers until it returns false;
  \<^item> \<open>json_Unmarshal l\<close> is \<open>None\<close> when \<^verbatim>\<open>json.Unmarshal\<close> returns an error on the
    line, otherwise the decoded \<^verbatim>\<open>LogEntry\<close>;
  \<^item> \<open>time_Parse t\<close> is \<open>None\<close> when \<^verbatim>\<open>time.Parse(time.RFC3339, t)\<close> fails, otherwise
    the local date \<^verbatim>\<open>t.Local().Format("2006-01-02")\<close>;
  \<^item> \<open>range_order\<close> is the order in which \<^verbatim>\<open>range\<close> enumerates the values of the map
    returned by \<^verbatim>\<open>processFileForCache\<close> (Go leaves it unspecified).
  No relation between the fields is assumed.
\<close>

record world =
  os_Stat :: "string \<Rightarrow> (goint \<times> goint) option"
  os_Open :: "string \<Rightarrow> string list option"
  json_Unmarshal :: "string \<Rightarrow> LogEntry option"
  time_Parse :: "string \<Rightarrow> string option"
  range_order :: "EntryData list \<Rightarrow> EntryData list"

section \<open>\<^verbatim>\<open>processFileForCache\<close>\<close>

definition FileStats0 :: FileStats where
  "FileStats0 = \<lparr>LinesRead = 0, LinesParsed = 0, EntriesNew = 0\<rparr>"

text \<open>The record built at lines 531-539 from a decoded line, its key and its date.\<close>

definition newEntry :: "LogEntry \<Rightarrow> string \<Rightarrow> string \<Rightarrow> EntryData" where
  "newEntry entry key date =
     \<lparr>Key = key,
      Date = date,
      Model = (if Message_Model entry = [] then ''unknown'' else Message_Model entry),
      InputTokens = Usage_InputTokens entry,
      OutputTokens = Usage_OutputTokens entry,
      CacheCreationTokens = Usage_CacheCreationTokens entry,
      CacheReadTokens = Usage_CacheReadTokens entry\<rparr>"

text \<open>One iteration of the scanner loop (lines 505-542); every \<^verbatim>\<open>continue\<close> is a branch.\<close>

definition processLine ::
  "world \<Rightarrow> (string, EntryData) gomap \<times> FileStats \<Rightarrow> string \<Rightarrow> (string, EntryData) gomap \<times> FileStats"
where
  "processLine w acc line =
     (case acc of (entries, stats0) \<Rightarrow>
        let stats1 = stats0\<lparr>LinesRead := LinesRead stats0 + 1\<rparr> in
        (case json_Unmarshal w line of
           None \<Rightarrow> (entries, stats1)
         | Some entry \<Rightarrow>
             let stats2 = stats1\<lparr>LinesParsed := LinesParsed stats1 + 1\<rparr> in
             if Timestamp entry = [] \<or> (Usage_InputTokens entry = 0 \<and> Usage_OutputTokens entry = 0)
             then (entries, stats2)
             else if Message_ID entry = [] \<or> RequestID entry = []
             then (entries, stats2)
             else
               let key = Message_ID entry @ '':'' @ RequestID entry in
               (case time_Parse w (Timestamp entry) of
                  None \<Rightarrow> (entries, stats2)
                | Some date \<Rightarrow>
                    (case map_of entries key of
                       Some existing \<Rightarrow> (entries, stats2)
                     | None \<Rightarrow>
                         (AList.update key (newEntry entry key date) entries,
                          stats2\<lparr>EntriesNew := EntriesNew stats2 + 1\<rparr>)))))"

definition processFileForCache :: "world \<Rightarrow> string \<Rightarrow> (string, EntryData) gomap \<times> FileStats" where
  "processFileForCache w path =
     (case os_Open w path of
        None \<Rightarrow> ([], FileStats0)
      | Some lines \<Rightarrow> foldl (processLine w) ([], FileStats0) lines)"

text \<open>
  The candidate record of a line: what lines 507-539 build before the test
  \<^verbatim>\<open>if _, exists := entries[key]; !exists\<close>, or \<open>None\<close> when the line is left by a
  \<^verbatim>\<open>continue\<close>.
\<close>

definition lineCandidate :: "world \<Rightarrow> string \<Rightarrow> EntryData option" where
  "lineCandidate w line =
     (case json_Unmarshal w line of
        None \<Rightarrow> None
      | Some entry \<Rightarrow>
          if Timestamp entry = [] \<or> (Usage_InputTokens entry = 0 \<and> Usage_OutputTokens entry = 0)
          then None
          else if Message_ID entry = [] \<or> RequestID entry = []
          then None
          else
            (case time_Parse w (Timestamp entry) of
               None \<Rightarrow> None
             | Some date \<Rightarrow>
                 Some (newEntry entry (Message_ID entry @ '':'' @ RequestID entry) date)))"

section \<open>\<^verbatim>\<open>processWithCacheLoaded\<close>\<close>

record cacheMiss =
  cm_path :: string
  cm_mtime :: goint
  cm_size :: goint

record fileResult =
  fr_path :: string
  fr_mtime :: goint
  fr_size :: goint
  fr_entries :: "EntryData list"
  fr_stats :: FileStats

text \<open>The variables that phase 1 (lines 584-612) reads and writes.\<close>

record phase1 =
  p1_allEntries :: "(string, EntryData) gomap"
  p1_stats :: cacheStats
  p1_existingFiles :: "string set"
  p1_misses :: "cacheMiss list"

definition phase1_init :: phase1 where
  "phase1_init =
     \<lparr>p1_allEntries = [], p1_stats = cacheStats0, p1_existingFiles = {}, p1_misses = []\<rparr>"

text \<open>
  The test of line 594, \<^verbatim>\<open>cacheValid && ok && cached.ModTime == mtime && cached.Size == size\<close>.
\<close>

definition isCacheHit :: "CacheFile \<Rightarrow> bool \<Rightarrow> string \<Rightarrow> goint \<Rightarrow> goint \<Rightarrow> bool" where
  "isCacheHit cache cacheValid path mtime sz =
     (case map_of (Files cache) path of
        None \<Rightarrow> False
      | Some cached \<Rightarrow> cacheValid \<and> ModTime cached = mtime \<and> Size cached = sz)"

definition scanFile :: "world \<Rightarrow> CacheFile \<Rightarrow> bool \<Rightarrow> phase1 \<Rightarrow> string \<Rightarrow> phase1" where
  "scanFile w cache cacheValid s0 path =
     (let s = s0\<lparr>p1_existingFiles := insert path (p1_existingFiles s0)\<rparr> in
      case os_Stat w path of
        None \<Rightarrow> s
      | Some (mtime, sz) \<Rightarrow>
          if isCacheHit cache cacheValid path mtime sz
          then
            (case mergeEntries (p1_allEntries s, (p1_stats s)\<lparr>hits := hits (p1_stats s) + 1\<rparr>)
                    (case map_of (Files cache) path of None \<Rightarrow> [] | Some cached \<Rightarrow> Entries cached) of
               (allEntries, stats) \<Rightarrow> s\<lparr>p1_allEntries := allEntries, p1_stats := stats\<rparr>)
          else
            s\<lparr>p1_stats := (p1_stats s)\<lparr>misses := misses (p1_stats s) + 1\<rparr>,
              p1_misses := p1_misses s @ [\<lparr>cm_path = path, cm_mtime = mtime, cm_size = sz\<rparr>]\<rparr>)"

definition scanFiles :: "world \<Rightarrow> CacheFile \<Rightarrow> bool \<Rightarrow> string list \<Rightarrow> phase1" where
  "scanFiles w cache cacheValid files = foldl (scanFile w cache cacheValid) phase1_init files"

text \<open>
  Phase 2 (lines 626-652): every goroutine is a pure function of its miss and writes its
  own slot \<^verbatim>\<open>results[i]\<close>, so after \<^verbatim>\<open>wg.Wait()\<close> the slice is the image of the misses,
  whatever the interleaving.
\<close>

definition parseMiss :: "world \<Rightarrow> cacheMiss \<Rightarrow> fileResult" where
  "parseMiss w miss =
     (case processFileForCache w (cm_path miss) of
        (entries, fStats) \<Rightarrow>
          \<lparr>fr_path = cm_path miss,
           fr_mtime = cm_mtime miss,
           fr_size = cm_size miss,
           fr_entries = range_order w (map snd entries),
           fr_stats = fStats\<rparr>)"

text \<open>One iteration of the phase 3 loop (lines 655-675).\<close>

definition mergeResult ::
  "((string, EntryData) gomap \<times> cacheStats) \<times> (string, FileCacheEntry) gomap \<Rightarrow> fileResult
   \<Rightarrow> ((string, EntryData) gomap \<times> cacheStats) \<times> (string, FileCacheEntry) gomap"
where
  "mergeResult acc r =
     (case acc of ((allEntries, stats), cacheFiles) \<Rightarrow>
        (mergeEntries (allEntries, stats\<lparr>totalLines := totalLines stats + LinesRead (fr_stats r)\<rparr>)
           (fr_entries r),
         AList.update (fr_path r)
           \<lparr>ModTime = fr_mtime r, Size = fr_size r, Entries = fr_entries r\<rparr> cacheFiles))"

text \<open>One iteration of the cleanup loop (lines 678-683).\<close>

definition cleanupFile ::
  "string set \<Rightarrow> bool \<times> (string, FileCacheEntry) gomap \<Rightarrow> string
   \<Rightarrow> bool \<times> (string, FileCacheEntry) gomap"
where
  "cleanupFile existingFiles acc path =
     (case acc of (dirty, cacheFiles) \<Rightarrow>
        if path \<notin> existingFiles then (True, AList.delete path cacheFiles)
        else (dirty, cacheFiles))"

record processed =
  pr_allEntries :: "(string, EntryData) gomap"
  pr_stats :: cacheStats
  pr_dirty :: bool
  pr_cache :: CacheFile

definition processWithCacheLoaded :: "world \<Rightarrow> string list \<Rightarrow> CacheFile \<Rightarrow> bool \<Rightarrow> processed" where
  "processWithCacheLoaded w files cache cacheValid =
     (let dirty0 = (if \<not> cacheValid then True else False);
          s = scanFiles w cache cacheValid files;
          dirty1 = (if p1_misses s \<noteq> [] then True else dirty0);
          results = map (parseMiss w) (p1_misses s)
      in
      case foldl mergeResult ((p1_allEntries s, p1_stats s), Files cache) results of
        ((allEntries, stats), cacheFiles) \<Rightarrow>
          (case foldl (cleanupFile (p1_existingFiles s)) (dirty1, cacheFiles) (map fst cacheFiles) of
             (dirty, cacheFiles') \<Rightarrow>
               \<lparr>pr_allEntries = allEntries,
                pr_stats = stats,
                pr_dirty = dirty,
                pr_cache = cache\<lparr>Files := cacheFiles'\<rparr>\<rparr>))"

text \<open>
  The three ways a path fares at lines 586-611: the stat fails and the path is skipped, or
  it is a hit, or it is a miss, which queues one \<^verbatim>\<open>cacheMiss\<close>.
\<close>

definition fileIsHit :: "world \<Rightarrow> CacheFile \<Rightarrow> bool \<Rightarrow> string \<Rightarrow> bool" where
  "fileIsHit w cache cacheValid path =
     (case os_Stat w path of
        None \<Rightarrow> False
      | Some (mtime, sz) \<Rightarrow> isCacheHit cache cacheValid path mtime sz)"

definition fileIsMiss :: "world \<Rightarrow> CacheFile \<Rightarrow> bool \<Rightarrow> string \<Rightarrow> bool" where
  "fileIsMiss w cache cacheValid path =
     (case os_Stat w path of
        None \<Rightarrow> False
      | Some (mtime, sz) \<Rightarrow> \<not> isCacheHit cache cacheValid path mtime sz)"

definition missRecord :: "world \<Rightarrow> CacheFile \<Rightarrow> bool \<Rightarrow> string \<Rightarrow> cacheMiss list" where
  "missRecord w cache cacheValid path =
     (case os_Stat w path of
        None \<Rightarrow> []
      | Some (mtime, sz) \<Rightarrow>
          if isCacheHit cache cacheValid path mtime sz then []
          else [\<lparr>cm_path = path, cm_mtime = mtime, cm_size = sz\<rparr>])"

text \<open>
  The cache entry that phase 3 writes for a re-parsed file (lines 670-674): the stat of
  phase 1 and the records that \<^verbatim>\<open>processFileForCache\<close> returned for it.
\<close>

definition parsedEntry :: "world \<Rightarrow> string \<Rightarrow> goint \<Rightarrow> goint \<Rightarrow> FileCacheEntry" where
  "parsedEntry w path mtime sz =
     \<lparr>ModTime = mtime, Size = sz,
      Entries = range_order w (map snd (fst (processFileForCache w path)))\<rparr>"

text \<open>The paths handed to \<^verbatim>\<open>processFileForCache\<close> in phase 2, in order.\<close>

definition reparsed :: "world \<Rightarrow> string list \<Rightarrow> CacheFile \<Rightarrow> bool \<Rightarrow> string list" where
  "reparsed w files cache cacheValid = map cm_path (p1_misses (scanFiles w cache cacheValid files))"

text \<open>
  The files that can contribute records: those that can be statted and that either can
  be opened or are cache hits (a hit is never opened).
\<close>

definition contributes :: "world \<Rightarrow> CacheFile \<Rightarrow> bool \<Rightarrow> string \<Rightarrow> bool" where
  "contributes w cache cacheValid path =
     (os_Stat w path \<noteq> None \<and> (os_Open w path \<noteq> None \<or> fileIsHit w cache cacheValid path))"

text \<open>
  The records handed to the merge rule, in the order in which they are merged: the cached
  records of the hits in file order (phase 1), then the parsed records of the misses in
  submission order (phase 3).
\<close>

definition hitEntries :: "world \<Rightarrow> CacheFile \<Rightarrow> bool \<Rightarrow> string \<Rightarrow> EntryData list" where
  "hitEntries w cache cacheValid path =
     (case os_Stat w path of
        None \<Rightarrow> []
      | Some (mtime, sz) \<Rightarrow>
          if isCacheHit cache cacheValid path mtime sz
          then (case map_of (Files cache) path of None \<Rightarrow> [] | Some cached \<Rightarrow> Entries cached)
          else [])"

definition missEntries :: "world \<Rightarrow> CacheFile \<Rightarrow> bool \<Rightarrow> string \<Rightarrow> EntryData list" where
  "missEntries w cache cacheValid path =
     (case os_Stat w path of
        None \<Rightarrow> []
      | Some (mtime, sz) \<Rightarrow>
          if isCacheHit cache cacheValid path mtime sz then []
          else range_order w (map snd (fst (processFileForCache w path))))"

definition mergeInputs :: "world \<Rightarrow> CacheFile \<Rightarrow> bool \<Rightarrow> string list \<Rightarrow> EntryData list" where
  "mergeInputs w cache cacheValid files =
     concat (map (hitEntries w cache cacheValid) files) @
     concat (map (missEntries w cache cacheValid) files)"

section \<open>Discovery: \<^verbatim>\<open>fullWalkJSONL\<close>, \<^verbatim>\<open>walkSubtree\<close>, \<^verbatim>\<open>minimalRoots\<close>, \<^verbatim>\<open>findJSONLFiles\<close>\<close>

text \<open>
  \<^verbatim>\<open>filepath.WalkDir\<close> runs over a directory tree. A directory node carries the result
  of \<^verbatim>\<open>d.Info()\<close> (\<open>None\<close> when it fails, otherwise the modification time) and the
  entries that \<^verbatim>\<open>os.ReadDir\<close> returns, in the order it returns them (sorted by file
  name). \<open>FileNode\<close> is any entry that is not a directory, a symbolic link included
  (\<^verbatim>\<open>WalkDir\<close> does not follow links). \<open>dk_tree\<close> is the tree found at the path
  \<open>dk_root\<close>; no other path exists for \<^verbatim>\<open>WalkDir\<close>.
\<close>

datatype fsnode = FileNode | DirNode "goint option" "(string \<times> fsnode) list"

record disk =
  dk_root :: string
  dk_tree :: fsnode

text \<open>
  The calls that \<^verbatim>\<open>WalkDir\<close> makes to its callback with a nil error, in order: the node
  itself, then the walk of every entry under the joined path.
\<close>

fun walkDir :: "string \<Rightarrow> fsnode \<Rightarrow> (string \<times> fsnode) list" where
  "walkDir path FileNode = [(path, FileNode)]"
| "walkDir path (DirNode info entries) =
     (path, DirNode info entries) #
     concat (map (\<lambda>entry. walkDir (path @ ''/'' @ fst entry) (snd entry)) entries)"

text \<open>
  \<^verbatim>\<open>filepath.WalkDir(root, fn)\<close>: when \<^verbatim>\<open>os.Lstat(root)\<close> fails the callback is called once
  with the error and returns nil, so nothing is visited.
\<close>

definition filepath_WalkDir :: "disk \<Rightarrow> string \<Rightarrow> (string \<times> fsnode) list" where
  "filepath_WalkDir dk root =
     (case map_of (walkDir (dk_root dk) (dk_tree dk)) root of
        None \<Rightarrow> []
      | Some node \<Rightarrow> walkDir root node)"

text \<open>The callback of lines 68-83 (and, word for word, of lines 90-105).\<close>

definition walkFn ::
  "string list \<times> (string, goint) gomap \<Rightarrow> string \<times> fsnode \<Rightarrow> string list \<times> (string, goint) gomap"
where
  "walkFn acc visited =
     (case acc of (files, dirs) \<Rightarrow>
        (case visited of
           (path, DirNode info entries) \<Rightarrow>
             (case info of
                Some modTime \<Rightarrow> (files, AList.update path modTime dirs)
              | None \<Rightarrow> (files, dirs))
         | (path, FileNode) \<Rightarrow>
             if suffix ''.jsonl'' path then (files @ [path], dirs) else (files, dirs)))"

definition fullWalkJSONL :: "disk \<Rightarrow> string \<Rightarrow> string list \<times> (string, goint) gomap" where
  "fullWalkJSONL dk dir = foldl walkFn ([], []) (filepath_WalkDir dk dir)"

definition walkSubtree :: "disk \<Rightarrow> string \<Rightarrow> string list \<times> (string, goint) gomap" where
  "walkSubtree dk root = foldl walkFn ([], []) (filepath_WalkDir dk root)"

text \<open>Five minutes, in nanoseconds; instants are nanoseconds too.\<close>

definition fullWalkInterval :: int where
  "fullWalkInterval = 5 * 60 * 1000000000"

definition minimalRoots :: "string set \<Rightarrow> string list" where
  "minimalRoots dirs =
     foldl (\<lambda>roots p.
              if list_ex (\<lambda>root. prefix (root @ ''/'') p) roots then roots else roots @ [p])
       [] (sorted_list_of_set dirs)"

text \<open>
  \<^verbatim>\<open>filepath.Dir\<close> on a clean path: everything before the last separator, \<^verbatim>\<open>.\<close> when there
  is no separator, \<^verbatim>\<open>/\<close> when only the leading one is left.
\<close>

definition filepath_Dir :: "string \<Rightarrow> string" where
  "filepath_Dir path =
     (let d = rev (dropWhile (\<lambda>c. c \<noteq> CHR ''/'') (rev path));
          d' = rev (dropWhile (\<lambda>c. c = CHR ''/'') (rev d))
      in if d = [] then ''.'' else if d' = [] then ''/'' else d')"

record discoveryStats =
  dirsChecked :: nat
  dirsChanged :: nat
  subtreesWalked :: nat
  filesFromCache :: nat
  fullWalk :: bool

definition discoveryStats0 :: discoveryStats where
  "discoveryStats0 =
     \<lparr>dirsChecked = 0, dirsChanged = 0, subtreesWalked = 0, filesFromCache = 0, fullWalk = False\<rparr>"

text \<open>Line 118-120, with \<open>now\<close> the reading of the clock.\<close>

definition needsFullWalk :: "int \<Rightarrow> CacheFile option \<Rightarrow> bool" where
  "needsFullWalk now cache =
     (case cache of
        None \<Rightarrow> True
      | Some c \<Rightarrow> length (Dirs c) = 0 \<or> now - LastFullWalk c > fullWalkInterval)"


text \<open>One iteration of the loop of lines 140-154.\<close>

definition classifyDir ::
  "world \<Rightarrow> string set \<times> string set \<times> discoveryStats \<Rightarrow> string \<times> goint
   \<Rightarrow> string set \<times> string set \<times> discoveryStats"
where
  "classifyDir w acc d =
     (case acc of (changedRoots, unchangedDirs, dStats) \<Rightarrow>
        (case d of (dirPath, cachedMtime) \<Rightarrow>
           (case os_Stat w dirPath of
              None \<Rightarrow>
                (insert dirPath changedRoots, unchangedDirs,
                 dStats\<lparr>dirsChanged := dirsChanged dStats + 1\<rparr>)
            | Some (currentMtime, sz) \<Rightarrow>
                if currentMtime \<noteq> cachedMtime
                then (insert dirPath changedRoots, unchangedDirs,
                      dStats\<lparr>dirsChanged := dirsChanged dStats + 1\<rparr>)
                else (changedRoots, insert dirPath unchangedDirs, dStats))))"

text \<open>One iteration of the loop of lines 158-164.\<close>

definition collectCached ::
  "string set \<Rightarrow> string set \<times> discoveryStats \<Rightarrow> string \<Rightarrow> string set \<times> discoveryStats"
where
  "collectCached unchangedDirs acc filePath =
     (case acc of (fileSet, dStats) \<Rightarrow>
        if filepath_Dir filePath \<in> unchangedDirs
        then (insert filePath fileSet, dStats\<lparr>filesFromCache := filesFromCache dStats + 1\<rparr>)
        else (fileSet, dStats))"

text \<open>One iteration of the loop of lines 168-178.\<close>

definition walkRoot ::
  "disk \<Rightarrow> string set \<times> (string, goint) gomap \<times> string set \<times> discoveryStats \<Rightarrow> string
   \<Rightarrow> string set \<times> (string, goint) gomap \<times> string set \<times> discoveryStats"
where
  "walkRoot dk acc root =
     (case acc of (fileSet, dirs, unchangedDirs, dStats) \<Rightarrow>
        (case walkSubtree dk root of
           (subtreeFiles, subtreeDirs) \<Rightarrow>
             (fileSet \<union> set subtreeFiles,
              foldl (\<lambda>ds d. AList.update (fst d) (snd d) ds) dirs subtreeDirs,
              unchangedDirs - fst ` set subtreeDirs,
              dStats\<lparr>subtreesWalked := subtreesWalked dStats + 1\<rparr>)))"

text \<open>One iteration of the loop of lines 181-185.\<close>

definition pruneDir :: "world \<Rightarrow> (string, goint) gomap \<Rightarrow> string \<Rightarrow> (string, goint) gomap" where
  "pruneDir w dirs dirPath =
     (case os_Stat w dirPath of
        None \<Rightarrow> AList.delete dirPath dirs
      | Some info \<Rightarrow> dirs)"

record discovered =
  dc_files :: "string list"
  dc_stats :: discoveryStats
  dc_cache :: "CacheFile option"

definition findJSONLFiles :: "world \<Rightarrow> disk \<Rightarrow> int \<Rightarrow> string \<Rightarrow> CacheFile option \<Rightarrow> discovered" where
  "findJSONLFiles w dk now dir cache =
     (if needsFullWalk now cache
      then
        (case fullWalkJSONL dk dir of
           (files, dirs) \<Rightarrow>
             \<lparr>dc_files = files,
              dc_stats = discoveryStats0\<lparr>fullWalk := True, dirsChecked := length dirs\<rparr>,
              dc_cache = map_option (\<lambda>c. c\<lparr>Dirs := dirs, LastFullWalk := now\<rparr>) cache\<rparr>)
      else
        (case cache of
           None \<Rightarrow> \<lparr>dc_files = [], dc_stats = discoveryStats0, dc_cache = None\<rparr>
         | Some c \<Rightarrow>
             (case foldl (classifyDir w)
                     ({}, {}, discoveryStats0\<lparr>dirsChecked := length (Dirs c)\<rparr>) (Dirs c) of
                (changedRoots, unchangedDirs, dStats1) \<Rightarrow>
                  (case foldl (collectCached unchangedDirs) ({}, dStats1) (map fst (Files c)) of
                     (fileSet1, dStats2) \<Rightarrow>
                       (case foldl (walkRoot dk) (fileSet1, Dirs c, unchangedDirs, dStats2)
                               (minimalRoots changedRoots) of
                          (fileSet, dirs, unchangedDirs', dStats) \<Rightarrow>
                            \<lparr>dc_files = sorted_list_of_set fileSet,
                             dc_stats = dStats,
                             dc_cache =
                               Some (c\<lparr>Dirs := foldl (pruneDir w) dirs (map fst dirs)\<rparr>)\<rparr>)))))"

text \<open>The visits for which the callback appends to \<^verbatim>\<open>files\<close>.\<close>

definition isJSONL :: "string \<times> fsnode \<Rightarrow> bool" where
  "isJSONL v = (snd v = FileNode \<and> suffix ''.jsonl'' (fst v))"

text \<open>
  A tree as a file system presents it: the names in a directory are non-empty, contain
  no separator, and come sorted and without repetition from \<^verbatim>\<open>os.ReadDir\<close>.
\<close>

fun wf_tree :: "fsnode \<Rightarrow> bool" where
  "wf_tree FileNode = True"
| "wf_tree (DirNode info entries) =
     (sorted_wrt (<) (map fst entries) \<and>
      (\<forall>entry \<in> set entries. fst entry \<noteq> [] \<and> CHR ''/'' \<notin> set (fst entry) \<and> wf_tree (snd entry)))"

section \<open>\<^verbatim>\<open>main\<close>\<close>

text \<open>
  The part of \<^verbatim>\<open>main\<close> between loading the cache and saving it (lines 799-854).
  \<open>loaded\<close> is what \<^verbatim>\<open>loadCache()\<close> returned, or \<open>None\<close> when a flag suppressed the call;
  \<open>tz\<close> is \<^verbatim>\<open>getLocalTimezone()\<close>; \<open>dir\<close> is the projects directory. The result records
  the cache handed to \<^verbatim>\<open>saveCache\<close>, if it is called.
\<close>

definition main_cacheValid :: "CacheFile option \<Rightarrow> string \<Rightarrow> bool" where
  "main_cacheValid cache tz =
     (case cache of
        None \<Rightarrow> False
      | Some c \<Rightarrow> Version c = CacheVersion \<and> Timezone c = tz)"

text \<open>The zero \<^verbatim>\<open>time.Time\<close>, January 1 of year 1, in nanoseconds before the Unix epoch.\<close>

definition zeroTime :: int where
  "zeroTime = - 62135596800 * 1000000000"

definition main_cache :: "CacheFile option \<Rightarrow> string \<Rightarrow> CacheFile" where
  "main_cache cache tz =
     (case cache of
        None \<Rightarrow>
          \<lparr>Version = CacheVersion, Timezone = tz, Files = [], Dirs = [], LastFullWalk = zeroTime\<rparr>
      | Some c \<Rightarrow>
          if main_cacheValid cache tz then c
          else \<lparr>Version = CacheVersion, Timezone = tz, Files = [], Dirs = [],
                 LastFullWalk = zeroTime\<rparr>)"

record mainRun =
  mr_cacheValid :: bool
  mr_discovered :: discovered
  mr_processed :: processed
  mr_saved :: "CacheFile option"

definition main :: "world \<Rightarrow> disk \<Rightarrow> int \<Rightarrow> string \<Rightarrow> string \<Rightarrow> CacheFile option \<Rightarrow> mainRun" where
  "main w dk now tz dir loaded =
     (let cacheValid = main_cacheValid loaded tz;
          cache = main_cache loaded tz;
          found = findJSONLFiles w dk now dir (Some cache);
          cache1 = (case dc_cache found of None \<Rightarrow> cache | Some c \<Rightarrow> c);
          res = processWithCacheLoaded w (dc_files found) cache1 cacheValid
      in \<lparr>mr_cacheValid = cacheValid,
          mr_discovered = found,
          mr_processed = res,
          mr_saved =
            (if pr_dirty res \<or> fullWalk (dc_stats found) \<or> dirsChanged (dc_stats found) > 0
             then Some (pr_cache res) else None)\<rparr>)"

section \<open>The persisted format: \<^verbatim>\<open>saveCache\<close> and \<^verbatim>\<open>loadCache\<close>\<close>

text \<open>
  The length of a slice and an index into the string table are Go \<^verbatim>\<open>int\<close>s that never
  leave the range of a length, so they are modelled as \<^typ>\<open>int\<close>.
\<close>

type_synonym byte = "8 word"

record EncodedEntry =
  ee_Key :: string
  ee_DateIdx :: int
  ee_ModelIdx :: int
  ee_InputTokens :: goint
  ee_OutputTokens :: goint
  ee_CacheCreationTokens :: goint
  ee_CacheReadTokens :: goint

record EncodedFileCacheEntry =
  ef_ModTime :: goint
  ef_Size :: goint
  ef_Entries :: "EncodedEntry list"

record EncodedCache =
  ec_StringTable :: "string list"
  ec_Files :: "(string, EncodedFileCacheEntry) gomap"
  ec_Dirs :: "(string, goint) gomap"
  ec_LastFullWalk :: int

text \<open>
  \<^verbatim>\<open>encoding/gob\<close> is a library: \<open>gob_Encode\<close> is \<open>None\<close> when \<^verbatim>\<open>Encode\<close> returns an
  error and the bytes it wrote otherwise; \<open>gob_Decode\<close> is \<open>None\<close> when \<^verbatim>\<open>Decode\<close>
  returns an error and the decoded value otherwise.
\<close>

record gobCodec =
  gob_Encode :: "EncodedCache \<Rightarrow> byte list option"
  gob_Decode :: "byte list \<Rightarrow> EncodedCache option"

definition cacheMagic :: "byte list" where
  "cacheMagic = [0x43, 0x43, 0x55, 0x47]"

definition LittleEndian_PutUint32 :: "32 word \<Rightarrow> byte list" where
  "LittleEndian_PutUint32 v =
     [ucast v, ucast (drop_bit 8 v), ucast (drop_bit 16 v), ucast (drop_bit 24 v)]"

definition LittleEndian_Uint32 :: "byte list \<Rightarrow> 32 word" where
  "LittleEndian_Uint32 b =
     ucast (b ! 0) OR push_bit 8 (ucast (b ! 1)) OR push_bit 16 (ucast (b ! 2)) OR
     push_bit 24 (ucast (b ! 3))"

text \<open>The closure \<^verbatim>\<open>intern\<close> of lines 426-436 and the two variables it captures.\<close>

record interning =
  stringIndex :: "(string, int) gomap"
  stringTable :: "string list"

definition intern :: "interning \<Rightarrow> string \<Rightarrow> int \<times> interning" where
  "intern st s =
     (case map_of (stringIndex st) s of
        Some idx \<Rightarrow> (idx, st)
      | None \<Rightarrow>
          (let idx = int (length (stringTable st))
           in (idx, \<lparr>stringIndex = AList.update s idx (stringIndex st),
                     stringTable = stringTable st @ [s]\<rparr>)))"

text \<open>
  Lines 450-458: the fields of the composite literal are evaluated from left to right,
  the date first.
\<close>

definition encodeEntry :: "interning \<Rightarrow> EntryData \<Rightarrow> EncodedEntry \<times> interning" where
  "encodeEntry st e =
     (case intern st (Date e) of
        (dateIdx, st1) \<Rightarrow>
          (case intern st1 (Model e) of
             (modelIdx, st2) \<Rightarrow>
               (\<lparr>ee_Key = Key e,
                 ee_DateIdx = dateIdx,
                 ee_ModelIdx = modelIdx,
                 ee_InputTokens = InputTokens e,
                 ee_OutputTokens = OutputTokens e,
                 ee_CacheCreationTokens = CacheCreationTokens e,
                 ee_CacheReadTokens = CacheReadTokens e\<rparr>, st2)))"

fun encodeEntries :: "interning \<Rightarrow> EntryData list \<Rightarrow> EncodedEntry list \<times> interning" where
  "encodeEntries st [] = ([], st)"
| "encodeEntries st (e # es) =
     (case encodeEntry st e of
        (ee, st1) \<Rightarrow>
          (case encodeEntries st1 es of (ees, st2) \<Rightarrow> (ee # ees, st2)))"

text \<open>One iteration of the loop of lines 447-465.\<close>

definition encodeFile ::
  "(string, EncodedFileCacheEntry) gomap \<times> interning \<Rightarrow> string \<times> FileCacheEntry
   \<Rightarrow> (string, EncodedFileCacheEntry) gomap \<times> interning"
where
  "encodeFile acc f =
     (case acc of (files, st) \<Rightarrow>
        (case f of (path, fe) \<Rightarrow>
           (case encodeEntries st (Entries fe) of
              (entries, st1) \<Rightarrow>
                (AList.update path
                   \<lparr>ef_ModTime = ModTime fe, ef_Size = Size fe, ef_Entries = entries\<rparr> files,
                 st1))))"

text \<open>Lines 425-466: the encoded structure, the timezone interned first.\<close>

definition buildEncoded :: "CacheFile \<Rightarrow> EncodedCache" where
  "buildEncoded cache =
     (case intern \<lparr>stringIndex = [], stringTable = []\<rparr> (Timezone cache) of
        (tzIdx, st0) \<Rightarrow>
          (case foldl encodeFile ([], st0) (Files cache) of
             (files, st) \<Rightarrow>
               \<lparr>ec_StringTable = stringTable st,
                ec_Files = files,
                ec_Dirs = Dirs cache,
                ec_LastFullWalk = LastFullWalk cache\<rparr>))"

text \<open>Lines 468-477: magic, version and gob payload, or \<open>None\<close> for the encoder's error.\<close>

definition encodeCache :: "gobCodec \<Rightarrow> CacheFile \<Rightarrow> byte list option" where
  "encodeCache g cache =
     (case gob_Encode g (buildEncoded cache) of
        None \<Rightarrow> None
      | Some payload \<Rightarrow> Some (cacheMagic @ LittleEndian_PutUint32 (ucast CacheVersion) @ payload))"

text \<open>Lines 391-408.\<close>

definition decodeEntry :: "string list \<Rightarrow> EncodedEntry \<Rightarrow> EntryData" where
  "decodeEntry table ee =
     \<lparr>Key = ee_Key ee,
      Date = (if ee_DateIdx ee \<ge> 0 \<and> ee_DateIdx ee < int (length table)
              then table ! nat (ee_DateIdx ee) else []),
      Model = (if ee_ModelIdx ee \<ge> 0 \<and> ee_ModelIdx ee < int (length table)
               then table ! nat (ee_ModelIdx ee) else []),
      InputTokens = ee_InputTokens ee,
      OutputTokens = ee_OutputTokens ee,
      CacheCreationTokens = ee_CacheCreationTokens ee,
      CacheReadTokens = ee_CacheReadTokens ee\<rparr>"

text \<open>One iteration of the loop of lines 389-415.\<close>

definition decodeFileEntry :: "string list \<Rightarrow> EncodedFileCacheEntry \<Rightarrow> FileCacheEntry" where
  "decodeFileEntry table fe =
     \<lparr>ModTime = ef_ModTime fe, Size = ef_Size fe,
      Entries = map (decodeEntry table) (ef_Entries fe)\<rparr>"

definition decodeFile ::
  "string list \<Rightarrow> (string, FileCacheEntry) gomap \<Rightarrow> string \<times> EncodedFileCacheEntry
   \<Rightarrow> (string, FileCacheEntry) gomap"
where
  "decodeFile table files f =
     (case f of (path, fe) \<Rightarrow> AList.update path (decodeFileEntry table fe) files)"

text \<open>
  What \<^verbatim>\<open>stringIndex\<close> promises about \<^verbatim>\<open>stringTable\<close>: every recorded index is in range
  and finds its string.
\<close>

definition internOK :: "interning \<Rightarrow> bool" where
  "internOK st =
     (\<forall>s i. map_of (stringIndex st) s = Some i \<longrightarrow>
        0 \<le> i \<and> i < int (length (stringTable st)) \<and> stringTable st ! nat i = s)"

text \<open>
  \<^verbatim>\<open>loadCache\<close>: \<open>file\<close> is the content of the cache file, \<open>None\<close> when it cannot be
  read; \<open>legacy\<close> is what \<^verbatim>\<open>loadLegacyJSONCache()\<close> returns.
\<close>

definition loadCache :: "gobCodec \<Rightarrow> CacheFile option \<Rightarrow> byte list option \<Rightarrow> CacheFile option" where
  "loadCache g legacy file =
     (case file of
        None \<Rightarrow> legacy
      | Some data \<Rightarrow>
          if length data < 8 then legacy
          else if data ! 0 \<noteq> cacheMagic ! 0 \<or> data ! 1 \<noteq> cacheMagic ! 1 \<or>
                  data ! 2 \<noteq> cacheMagic ! 2 \<or> data ! 3 \<noteq> cacheMagic ! 3
          then legacy
          else
            (let version = LittleEndian_Uint32 (take 4 (drop 4 data)) in
             if version \<noteq> ucast CacheVersion then None
             else
               (case gob_Decode g (drop 8 data) of
                  None \<Rightarrow> None
                | Some encoded \<Rightarrow>
                    Some \<lparr>Version = ucast version,
                          Timezone = (if length (ec_StringTable encoded) > 0
                                      then ec_StringTable encoded ! 0 else []),
                          Files = foldl (decodeFile (ec_StringTable encoded)) [] (ec_Files encoded),
                          Dirs = ec_Dirs encoded,
                          LastFullWalk = ec_LastFullWalk encoded\<rparr>)))"

text \<open>
  The three files of the cache directory that \<^verbatim>\<open>saveCache\<close> touches: the cache file, its
  temporary file and the legacy JSON cache, each absent or with its content.
\<close>

record cacheDir =
  cache_bin :: "byte list option"
  cache_bin_tmp :: "byte list option"
  cache_json :: "byte list option"

text \<open>
  What the system calls of one \<^verbatim>\<open>saveCache\<close> do: whether \<^verbatim>\<open>os.MkdirAll\<close> fails; whether
  \<^verbatim>\<open>os.WriteFile\<close> succeeds or fails, and then what it leaves at the temporary path;
  whether \<^verbatim>\<open>os.Remove\<close> and \<^verbatim>\<open>os.Rename\<close> fail.
\<close>

datatype writeOutcome = WriteOk | WriteFailed "byte list option"

record syscalls =
  MkdirAll_fails :: bool
  WriteFile_outcome :: writeOutcome
  Remove_fails :: bool
  Rename_fails :: bool

datatype saveError = MkdirAllError | EncodeError | WriteFileError | RenameError

definition saveCache ::
  "gobCodec \<Rightarrow> syscalls \<Rightarrow> CacheFile \<Rightarrow> cacheDir \<Rightarrow> saveError option \<times> cacheDir"
where
  "saveCache g sys cache fs =
     (if MkdirAll_fails sys then (Some MkdirAllError, fs)
      else
        (case encodeCache g cache of
           None \<Rightarrow> (Some EncodeError, fs)
         | Some bytes \<Rightarrow>
             (case WriteFile_outcome sys of
                WriteFailed left \<Rightarrow> (Some WriteFileError, fs\<lparr>cache_bin_tmp := left\<rparr>)
              | WriteOk \<Rightarrow>
                  (let fs1 = fs\<lparr>cache_bin_tmp := Some bytes\<rparr>;
                       fs2 = (if Remove_fails sys then fs1 else fs1\<lparr>cache_json := None\<rparr>)
                   in if Rename_fails sys then (Some RenameError, fs2)
                      else (None, fs2\<lparr>cache_bin := cache_bin_tmp fs2, cache_bin_tmp := None\<rparr>)))))"

text \<open>A gob stand-in for the concrete runs: a fixed payload that decodes to a fixed value.\<close>

definition ex_payload :: "byte list" where
  "ex_payload = [0x67, 0x6f, 0x62]"

definition ex_gob :: "CacheFile \<Rightarrow> gobCodec" where
  "ex_gob c =
     \<lparr>gob_Encode = (\<lambda>enc. Some ex_payload),
      gob_Decode = (\<lambda>bs. if bs = ex_payload then Some (buildEncoded c) else None)\<rparr>"

definition ex_cacheDir :: cacheDir where
  "ex_cacheDir = \<lparr>cache_bin = None, cache_bin_tmp = None, cache_json = Some [0x7b, 0x7d]\<rparr>"

definition ex_empty_cache :: CacheFile where
  "ex_empty_cache =
     \<lparr>Version = 2, Timezone = ''UTC'', Files = [], Dirs = [], LastFullWalk = 0\<rparr>"

section \<open>A concrete run: one unchanged cached file, one modified file\<close>

text \<open>
  File \<^verbatim>\<open>A.jsonl\<close> is unchanged and cached with one record of key \<^verbatim>\<open>K1:X\<close> and 100
  tokens; file \<^verbatim>\<open>B.jsonl\<close> has changed since it was cached and holds one line with the
  same key and 150 tokens.
\<close>

definition ex_eA :: EntryData where
  "ex_eA = \<lparr>Key = ''K1:X'', Date = ''2025-01-01'', Model = ''sonnet'',
            InputTokens = 60, OutputTokens = 40, CacheCreationTokens = 0, CacheReadTokens = 0\<rparr>"

definition ex_eB :: EntryData where
  "ex_eB = \<lparr>Key = ''K1:X'', Date = ''2025-01-01'', Model = ''sonnet'',
            InputTokens = 90, OutputTokens = 50, CacheCreationTokens = 6, CacheReadTokens = 4\<rparr>"

definition ex_lineB :: LogEntry where
  "ex_lineB = \<lparr>Timestamp = ''2025-01-01T10:00:00Z'', RequestID = ''X'', Message_ID = ''K1'',
               Message_Model = ''sonnet'', Usage_InputTokens = 90, Usage_OutputTokens = 50,
               Usage_CacheCreationTokens = 6, Usage_CacheReadTokens = 4\<rparr>"

definition ex_world :: world where
  "ex_world =
     \<lparr>os_Stat = (\<lambda>p. if p = ''A.jsonl'' then Some (1, 10)
                     else if p = ''B.jsonl'' then Some (2, 20) else None),
      os_Open = (\<lambda>p. if p = ''A.jsonl'' then Some [''lineA'']
                      else if p = ''B.jsonl'' then Some [''lineB''] else None),
      json_Unmarshal = (\<lambda>l. if l = ''lineB'' then Some ex_lineB else None),
      time_Parse = (\<lambda>t. if t = ''2025-01-01T10:00:00Z'' then Some ''2025-01-01'' else None),
      range_order = (\<lambda>es. es)\<rparr>"

definition ex_cache :: CacheFile where
  "ex_cache =
     \<lparr>Version = 2, Timezone = ''UTC'',
      Files = [(''A.jsonl'', \<lparr>ModTime = 1, Size = 10, Entries = [ex_eA]\<rparr>),
               (''B.jsonl'', \<lparr>ModTime = 1, Size = 5, Entries = []\<rparr>)],
      Dirs = [], LastFullWalk = 0\<rparr>"

text \<open>
  The same run after \<^verbatim>\<open>A.jsonl\<close> has become unreadable with its modification time and
  size unchanged (as after a change of permissions): it can be statted, not opened. A
  new file \<^verbatim>\<open>D.jsonl\<close> can be statted and not opened either.
\<close>

definition ex_locked_world :: world where
  "ex_locked_world =
     ex_world\<lparr>os_Stat := (\<lambda>p. if p = ''D.jsonl'' then Some (3, 30) else os_Stat ex_world p),
              os_Open := (\<lambda>p. if p = ''B.jsonl'' then Some [''lineB''] else None)\<rparr>"

text \<open>
  A warm start: the manifest knows the directory \<^verbatim>\<open>r\<close>, whose modification time is
  unchanged, the last full walk was a minute ago, and the one cached file is unchanged.
\<close>

definition ex_warm_world :: world where
  "ex_warm_world =
     \<lparr>os_Stat = (\<lambda>p. if p = ''r'' then Some (5, 4096)
                     else if p = ''r/A.jsonl'' then Some (1, 10) else None),
      os_Open = (\<lambda>p. None),
      json_Unmarshal = (\<lambda>l. None),
      time_Parse = (\<lambda>t. None),
      range_order = (\<lambda>es. es)\<rparr>"

definition ex_warm_cache :: CacheFile where
  "ex_warm_cache =
     \<lparr>Version = 2, Timezone = ''UTC'',
      Files = [(''r/A.jsonl'', \<lparr>ModTime = 1, Size = 10, Entries = [ex_eA]\<rparr>)],
      Dirs = [(''r'', 5)], LastFullWalk = 1000\<rparr>"

text \<open>
  A projects directory \<^verbatim>\<open>r\<close> holding the directory \<^verbatim>\<open>a\<close> (with the file \<^verbatim>\<open>x.jsonl\<close>)
  and the file \<^verbatim>\<open>a.jsonl\<close>.
\<close>

definition ex_disk :: disk where
  "ex_disk =
     \<lparr>dk_root = ''r'',
      dk_tree = DirNode (Some 5)
                  [(''a'', DirNode (Some 6) [(''x.jsonl'', FileNode)]),
                   (''a.jsonl'', FileNode)]\<rparr>"

text \<open>
  The projects directory \<^verbatim>\<open>r\<close> of \<open>ex_disk\<close> with both its files readable, and a cache
  that knows both files and both directories as they are. \<^verbatim>\<open>r/a.jsonl\<close> holds one
  line, \<^verbatim>\<open>r/a/x.jsonl\<close> is empty.
\<close>

definition ex_proj_world :: world where
  "ex_proj_world =
     \<lparr>os_Stat = (\<lambda>p. if p = ''r'' then Some (5, 4096)
                     else if p = ''r/a'' then Some (6, 4096)
                     else if p = ''r/a/x.jsonl'' then Some (11, 0)
                     else if p = ''r/a.jsonl'' then Some (12, 200) else None),
      os_Open = (\<lambda>p. if p = ''r/a.jsonl'' then Some [''lineB'']
                     else if p = ''r/a/x.jsonl'' then Some [] else None),
      json_Unmarshal = (\<lambda>l. if l = ''lineB'' then Some ex_lineB else None),
      time_Parse = (\<lambda>t. if t = ''2025-01-01T10:00:00Z'' then Some ''2025-01-01'' else None),
      range_order = (\<lambda>es. es)\<rparr>"

definition ex_proj_cache :: CacheFile where
  "ex_proj_cache =
     \<lparr>Version = 2, Timezone = ''UTC'',
      Files = [(''r/a/x.jsonl'', \<lparr>ModTime = 11, Size = 0, Entries = []\<rparr>),
               (''r/a.jsonl'', \<lparr>ModTime = 12, Size = 200, Entries = [ex_eB]\<rparr>)],
      Dirs = [(''r'', 5), (''r/a'', 6)], LastFullWalk = 1000\<rparr>"

text \<open>
  The same directory when \<^verbatim>\<open>r/a.jsonl\<close> is a symbolic link whose target is gone:
  \<^verbatim>\<open>WalkDir\<close> lists it (it is not a directory), \<^verbatim>\<open>os.Stat\<close> follows the link and fails.
\<close>

definition ex_dangling_world :: world where
  "ex_dangling_world =
     ex_proj_world\<lparr>os_Stat := (\<lambda>p. if p = ''r/a.jsonl'' then None else os_Stat ex_proj_world p),
                   os_Open := (\<lambda>p. if p = ''r/a.jsonl'' then None else os_Open ex_proj_world p)\<rparr>"

section \<open>A concrete log file\<close>

text \<open>
  File \<^verbatim>\<open>C.jsonl\<close> has five lines: two well-formed lines with the same message and
  request ids (the second with larger token counts), a line that is not JSON, a line
  with token counts and ids but an empty timestamp, and a line whose timestamp is not
  an RFC 3339 time.
\<close>

definition ex_l1 :: LogEntry where
  "ex_l1 = \<lparr>Timestamp = ''2025-02-03T08:00:00Z'', RequestID = ''X'', Message_ID = ''K1'',
            Message_Model = [], Usage_InputTokens = 10, Usage_OutputTokens = 5,
            Usage_CacheCreationTokens = 0, Usage_CacheReadTokens = 0\<rparr>"

definition ex_l2 :: LogEntry where
  "ex_l2 = \<lparr>Timestamp = ''2025-02-03T08:00:09Z'', RequestID = ''X'', Message_ID = ''K1'',
            Message_Model = ''opus'', Usage_InputTokens = 900, Usage_OutputTokens = 99,
            Usage_CacheCreationTokens = 0, Usage_CacheReadTokens = 0\<rparr>"

definition ex_noTs :: LogEntry where
  "ex_noTs = \<lparr>Timestamp = [], RequestID = ''Y'', Message_ID = ''K2'',
              Message_Model = ''opus'', Usage_InputTokens = 5, Usage_OutputTokens = 7,
              Usage_CacheCreationTokens = 1, Usage_CacheReadTokens = 1\<rparr>"

definition ex_badTs :: LogEntry where
  "ex_badTs = \<lparr>Timestamp = ''yesterday'', RequestID = ''Z'', Message_ID = ''K3'',
               Message_Model = ''opus'', Usage_InputTokens = 5, Usage_OutputTokens = 7,
               Usage_CacheCreationTokens = 1, Usage_CacheReadTokens = 1\<rparr>"

definition ex_file_world :: world where
  "ex_file_world =
     \<lparr>os_Stat = (\<lambda>p. if p = ''C.jsonl'' then Some (7, 70) else None),
      os_Open = (\<lambda>p. if p = ''C.jsonl''
                      then Some [''l1'', ''not json'', ''l2'', ''noTs'', ''badTs''] else None),
      json_Unmarshal = (\<lambda>l. if l = ''l1'' then Some ex_l1
                             else if l = ''l2'' then Some ex_l2
                             else if l = ''noTs'' then Some ex_noTs
                             else if l = ''badTs'' then Some ex_badTs else None),
      time_Parse = (\<lambda>t. if t = ''2025-02-03T08:00:00Z'' \<or> t = ''2025-02-03T08:00:09Z''
                         then Some ''2025-02-03'' else None),
      range_order = (\<lambda>es. es)\<rparr>"

section \<open>Properties of the merge rule\<close>

lemma mergeEntries_Nil [simp]: "mergeEntries acc [] = acc"
  by (simp add: mergeEntries_def)

lemma mergeEntries_Cons [simp]: "mergeEntries acc (e # es) = mergeEntries (mergeEntry acc e) es"
  by (simp add: mergeEntries_def)

lemma mergeEntries_append: "mergeEntries acc (xs @ ys) = mergeEntries (mergeEntries acc xs) ys"
  by (simp add: mergeEntries_def)





lemma mergeEntry_tie:
  "map_of m (Key e) = Some x \<Longrightarrow> entryTotalTokens e = entryTotalTokens x
   \<Longrightarrow> mergeEntry (m, st) e = (m, st)"
  by (simp add: mergeEntry_def)

section \<open>\<^verbatim>\<open>processWithCacheLoaded\<close> merges its inputs with the merge rule\<close>

lemma fst_mergeEntry_stats:
  "fst (mergeEntry (m, st) e) = fst (mergeEntry (m, st') e)"
  by (simp add: mergeEntry_def split: option.splits)

lemma fst_mergeEntries_stats:
  "fst (mergeEntries (m, st) es) = fst (mergeEntries (m, st') es)"
proof (induction es arbitrary: m st st')
  case Nil
  then show ?case by simp
next
  case (Cons e es)
  let ?a = "mergeEntry (m, st) e" and ?b = "mergeEntry (m, st') e"
  have eq: "fst ?a = fst ?b" by (rule fst_mergeEntry_stats)
  have "fst (mergeEntries (m, st) (e # es)) = fst (mergeEntries (fst ?a, snd ?a) es)" by simp
  also have "\<dots> = fst (mergeEntries (fst ?a, snd ?b) es)" by (rule Cons.IH)
  also have "\<dots> = fst (mergeEntries ?b es)" by (simp add: eq)
  also have "\<dots> = fst (mergeEntries (m, st') (e # es))" by simp
  finally show ?case .
qed

lemma scanFile_allEntries0:
  "p1_allEntries (scanFile w cache v s path) =
     fst (mergeEntries (p1_allEntries s, (p1_stats s)\<lparr>hits := hits (p1_stats s) + 1\<rparr>)
            (hitEntries w cache v path))"
  by (auto simp: scanFile_def hitEntries_def Let_def split: option.splits prod.splits)

lemma scanFile_allEntries:
  "p1_allEntries (scanFile w cache v s path) =
     fst (mergeEntries (p1_allEntries s, st) (hitEntries w cache v path))"
  unfolding scanFile_allEntries0 by (rule fst_mergeEntries_stats)

lemma scanFile_misses:
  "p1_misses (scanFile w cache v s path) = p1_misses s @ missRecord w cache v path"
  by (auto simp: scanFile_def missRecord_def Let_def split: option.splits prod.splits)

lemma scanFile_existing:
  "p1_existingFiles (scanFile w cache v s path) = insert path (p1_existingFiles s)"
  by (auto simp: scanFile_def Let_def split: option.splits prod.splits)

lemma foldl_scanFile_allEntries:
  "p1_allEntries (foldl (scanFile w cache v) s files) =
     fst (mergeEntries (p1_allEntries s, st) (concat (map (hitEntries w cache v) files)))"
proof (induction files arbitrary: s st)
  case Nil
  then show ?case by simp
next
  case (Cons p ps)
  obtain m1 s1 where a: "mergeEntries (p1_allEntries s, st) (hitEntries w cache v p) = (m1, s1)"
    by (cases "mergeEntries (p1_allEntries s, st) (hitEntries w cache v p)")
  have "p1_allEntries (scanFile w cache v s p) = m1"
    using scanFile_allEntries [of w cache v s p st] a by simp
  with Cons.IH [of "scanFile w cache v s p" s1] a show ?case
    by (simp add: mergeEntries_append)
qed

lemma foldl_scanFile_misses:
  "p1_misses (foldl (scanFile w cache v) s files) =
     p1_misses s @ concat (map (missRecord w cache v) files)"
  by (induction files arbitrary: s) (simp_all add: scanFile_misses)

lemma foldl_scanFile_existing:
  "p1_existingFiles (foldl (scanFile w cache v) s files) = p1_existingFiles s \<union> set files"
  by (induction files arbitrary: s) (simp_all add: scanFile_existing)

lemma scanFiles_allEntries:
  "p1_allEntries (scanFiles w cache v files) =
     fst (mergeEntries ([], st) (concat (map (hitEntries w cache v) files)))"
  using foldl_scanFile_allEntries [of w cache v phase1_init files st]
  by (simp add: scanFiles_def phase1_init_def)

lemma scanFiles_misses:
  "p1_misses (scanFiles w cache v files) = concat (map (missRecord w cache v) files)"
  by (simp add: scanFiles_def foldl_scanFile_misses phase1_init_def)

lemma scanFiles_existing:
  "p1_existingFiles (scanFiles w cache v files) = set files"
  by (simp add: scanFiles_def foldl_scanFile_existing phase1_init_def)

lemma fst_fst_mergeResult:
  "fst (fst (foldl mergeResult ((m, st), cf) rs)) =
     fst (mergeEntries (m, st') (concat (map fr_entries rs)))"
proof (induction rs arbitrary: m st st' cf)
  case Nil
  then show ?case by simp
next
  case (Cons r rs)
  let ?st = "st\<lparr>totalLines := totalLines st + LinesRead (fr_stats r)\<rparr>"
  let ?a = "mergeEntries (m, ?st) (fr_entries r)" and ?b = "mergeEntries (m, st') (fr_entries r)"
  let ?cf = "AList.update (fr_path r)
            \<lparr>ModTime = fr_mtime r, Size = fr_size r, Entries = fr_entries r\<rparr> cf"
  have eq: "fst ?a = fst ?b" by (rule fst_mergeEntries_stats)
  have "fst (fst (foldl mergeResult ((m, st), cf) (r # rs))) =
        fst (fst (foldl mergeResult ((fst ?a, snd ?a), ?cf) rs))"
    by (simp add: mergeResult_def)
  also have "\<dots> = fst (mergeEntries (fst ?a, snd ?b) (concat (map fr_entries rs)))"
    by (rule Cons.IH)
  also have "\<dots> = fst (mergeEntries ?b (concat (map fr_entries rs)))" by (simp add: eq)
  also have "\<dots> = fst (mergeEntries (m, st') (concat (map fr_entries (r # rs))))"
    by (simp add: mergeEntries_append)
  finally show ?case .
qed

lemma parse_missRecord:
  "concat (map (\<lambda>a. fr_entries (parseMiss w a)) (missRecord w cache v p)) = missEntries w cache v p"
  by (auto simp: missRecord_def missEntries_def parseMiss_def split: option.splits prod.splits)

lemma results_entries:
  "concat (map (\<lambda>a. fr_entries (parseMiss w a)) (concat (map (missRecord w cache v) files))) =
     concat (map (missEntries w cache v) files)"
  by (induction files) (simp_all add: parse_missRecord)

lemma processWithCacheLoaded_allEntries:
  "pr_allEntries (processWithCacheLoaded w files cache v) =
     fst (mergeEntries ([], st) (mergeInputs w cache v files))"
proof -
  let ?s = "scanFiles w cache v files"
  let ?rs = "map (parseMiss w) (p1_misses ?s)"
  have "pr_allEntries (processWithCacheLoaded w files cache v) =
          fst (fst (foldl mergeResult ((p1_allEntries ?s, p1_stats ?s), Files cache) ?rs))"
    by (simp add: processWithCacheLoaded_def Let_def split: prod.splits)
  also have "\<dots> = fst (mergeEntries (p1_allEntries ?s, snd (mergeEntries ([], st) (concat (map (hitEntries w cache v) files))))
                       (concat (map fr_entries ?rs)))"
    by (rule fst_fst_mergeResult)
  also have "\<dots> = fst (mergeEntries ([], st) (mergeInputs w cache v files))"
    by (simp add: mergeInputs_def mergeEntries_append scanFiles_allEntries [of w cache v files st]
        scanFiles_misses results_entries comp_def)
  finally show ?thesis .
qed

section \<open>The concrete run, evaluated\<close>




lemma ex_stat:
  "os_Stat ex_world ''A.jsonl'' = Some (1, 10)"
  "os_Stat ex_world ''B.jsonl'' = Some (2, 20)"
  "range_order ex_world = (\<lambda>es. es)"
  by (simp_all add: ex_world_def)



lemma ex_neq: "ex_eA \<noteq> ex_eB"
  by (simp add: ex_eA_def ex_eB_def)

lemma ex_keys: "Key ex_eA = ''K1:X''" "Key ex_eB = ''K1:X''"
  by (simp_all add: ex_eA_def ex_eB_def)


section \<open>The token total without overflow\<close>

text \<open>
  \<^verbatim>\<open>entryTotalTokens\<close> adds in 64 bits. When the four counters are non-negative and
  their sum is below \<open>2\<^sup>6\<^sup>3\<close>, the result read as a signed integer is the sum
  itself, and the comparison of line 599 compares the sums.
\<close>

lemma sint_add_exact:
  fixes a b :: "64 word"
  assumes "- (2 ^ 63) \<le> sint a + sint b" and "sint a + sint b < 2 ^ 63"
  shows "sint (a + b) = sint a + sint b"
  using assms by (simp add: sint_word_ariths signed_take_bit_int_eq_self)

lemma entryTotalTokens_exact:
  assumes "0 \<le> sint (InputTokens e)" and "0 \<le> sint (OutputTokens e)"
    and "0 \<le> sint (CacheCreationTokens e)" and "0 \<le> sint (CacheReadTokens e)"
    and "sint (InputTokens e) + sint (OutputTokens e) + sint (CacheCreationTokens e) +
         sint (CacheReadTokens e) < 2 ^ 63"
  shows "sint (entryTotalTokens e) =
         sint (InputTokens e) + sint (OutputTokens e) + sint (CacheCreationTokens e) +
         sint (CacheReadTokens e)"
proof -
  have 1: "sint (InputTokens e + OutputTokens e) = sint (InputTokens e) + sint (OutputTokens e)"
    using assms by (intro sint_add_exact) simp_all
  have 2: "sint (InputTokens e + OutputTokens e + CacheCreationTokens e) =
           sint (InputTokens e) + sint (OutputTokens e) + sint (CacheCreationTokens e)"
    using assms 1 by (subst sint_add_exact) simp_all
  show ?thesis
    unfolding entryTotalTokens_def using assms 1 2 by (subst sint_add_exact) simp_all
qed

lemma total_less_iff:
  "entryTotalTokens a <s entryTotalTokens b \<longleftrightarrow> sint (entryTotalTokens a) < sint (entryTotalTokens b)"
  by (rule word_sless_alt)

section \<open>Largest total wins (C1) and ties (C10)\<close>



text \<open>
  C10. When a record \<open>b\<close> arrives whose dedupKey is already in the merged map with a
  record \<open>a\<close> of equal token total, the merge step changes neither the map nor the
  statistics (so no conflict is counted and \<open>a\<close> is kept). Hence merging \<open>a\<close> then
  \<open>b\<close> retains \<open>a\<close>, merging \<open>b\<close> then \<open>a\<close> retains \<open>b\<close>: on ties the result
  depends on the merge order.
\<close>

theorem tie_keeps_earlier:
  assumes "Key a = Key b" and "entryTotalTokens a = entryTotalTokens b"
  shows "(\<forall>m st. map_of m (Key a) = Some a \<longrightarrow> mergeEntry (m, st) b = (m, st)) \<and>
         map_of (fst (mergeEntries ([], st0) [a, b])) (Key a) = Some a \<and>
         map_of (fst (mergeEntries ([], st0) [b, a])) (Key a) = Some b \<and>
         conflicts (snd (mergeEntries ([], st0) [a, b])) = conflicts st0 \<and>
         conflicts (snd (mergeEntries ([], st0) [b, a])) = conflicts st0"
  using assms by (simp add: mergeEntry_def)

theorem tie_keeps_earlier_witness:
  "map_of (fst (mergeEntries ([], cacheStats0) [ex_eB, ex_eB\<lparr>Model := ''opus''\<rparr>])) ''K1:X''
     = Some ex_eB \<and>
   map_of (fst (mergeEntries ([], cacheStats0) [ex_eB\<lparr>Model := ''opus''\<rparr>, ex_eB])) ''K1:X''
     = Some (ex_eB\<lparr>Model := ''opus''\<rparr>) \<and>
   ex_eB \<noteq> ex_eB\<lparr>Model := ''opus''\<rparr>"
proof -
  have k: "Key ex_eB = Key (ex_eB\<lparr>Model := ''opus''\<rparr>)" by simp
  have t: "entryTotalTokens ex_eB = entryTotalTokens (ex_eB\<lparr>Model := ''opus''\<rparr>)"
    by (simp add: entryTotalTokens_def)
  have n: "ex_eB \<noteq> ex_eB\<lparr>Model := ''opus''\<rparr>"
    by (simp add: ex_eB_def)
  from tie_keeps_earlier [OF k t, of cacheStats0] n show ?thesis
    by (simp add: ex_keys)
qed

section \<open>Properties of \<^verbatim>\<open>processFileForCache\<close>\<close>

lemma Key_newEntry [simp]: "Key (newEntry entry key date) = key"
  by (simp add: newEntry_def)

lemma processLine_candidate:
  "fst (processLine w (entries, st) line) =
     (case lineCandidate w line of
        None \<Rightarrow> entries
      | Some e \<Rightarrow>
          (case map_of entries (Key e) of
             Some existing \<Rightarrow> entries
           | None \<Rightarrow> AList.update (Key e) e entries))"
  by (simp add: processLine_def lineCandidate_def Let_def split: option.splits)

lemma map_of_processLine:
  "map_of (fst (processLine w (entries, st) line)) k =
     (case map_of entries k of
        Some e \<Rightarrow> Some e
      | None \<Rightarrow>
          (case lineCandidate w line of
             None \<Rightarrow> None
           | Some e \<Rightarrow> if Key e = k then Some e else None))"
  by (auto simp: processLine_candidate update_conv' split: option.splits)

lemma map_of_processLines:
  "map_of (fst (foldl (processLine w) (entries, st) lines)) k =
     (case map_of entries k of
        Some e \<Rightarrow> Some e
      | None \<Rightarrow> find (\<lambda>e. Key e = k) (List.map_filter (lineCandidate w) lines))"
proof (induction lines arbitrary: entries st)
  case Nil
  then show ?case by (simp split: option.splits)
next
  case (Cons l ls)
  obtain entries' st' where step: "processLine w (entries, st) l = (entries', st')"
    by (cases "processLine w (entries, st) l")
  have m: "map_of entries' k =
     (case map_of entries k of
        Some e \<Rightarrow> Some e
      | None \<Rightarrow>
          (case lineCandidate w l of
             None \<Rightarrow> None
           | Some e \<Rightarrow> if Key e = k then Some e else None))"
    using map_of_processLine [of w entries st l k] step by simp
  show ?case
    using Cons.IH [of entries' st'] step m
    by (auto split: option.splits)
qed

lemma find_map_filter_first:
  assumes "i < length ls" and "f (ls ! i) = Some e" and "P e"
    and "\<forall>j < i. \<forall>e'. f (ls ! j) = Some e' \<longrightarrow> \<not> P e'"
  shows "find P (List.map_filter f ls) = Some e"
  using assms
proof (induction ls arbitrary: i)
  case Nil
  then show ?case by simp
next
  case (Cons l ls)
  show ?case
  proof (cases i)
    case 0
    with Cons.prems show ?thesis by simp
  next
    case (Suc n)
    have first: "\<forall>e'. f l = Some e' \<longrightarrow> \<not> P e'"
      using Cons.prems(4) Suc by (metis nth_Cons_0 zero_less_Suc)
    have rest: "find P (List.map_filter f ls) = Some e"
    proof (rule Cons.IH [of n])
      show "n < length ls" using Cons.prems(1) Suc by simp
      show "f (ls ! n) = Some e" using Cons.prems(2) Suc by simp
      show "P e" by (rule Cons.prems(3))
      show "\<forall>j<n. \<forall>e'. f (ls ! j) = Some e' \<longrightarrow> \<not> P e'"
      proof (intro allI impI)
        fix j e' assume "j < n" "f (ls ! j) = Some e'"
        with Cons.prems(4) Suc show "\<not> P e'"
          by (metis Suc_less_eq nth_Cons_Suc)
      qed
    qed
    show ?thesis
      using first rest by (cases "f l") simp_all
  qed
qed


lemma ex_file_unmarshal:
  "json_Unmarshal ex_file_world ''l1'' = Some ex_l1"
  "json_Unmarshal ex_file_world ''not json'' = None"
  "json_Unmarshal ex_file_world ''l2'' = Some ex_l2"
  "json_Unmarshal ex_file_world ''noTs'' = Some ex_noTs"
  "json_Unmarshal ex_file_world ''badTs'' = Some ex_badTs"
  by (simp_all add: ex_file_world_def)

lemma ex_file_open:
  "os_Open ex_file_world ''C.jsonl'' = Some [''l1'', ''not json'', ''l2'', ''noTs'', ''badTs'']"
  by (simp add: ex_file_world_def)

lemma ex_file_time:
  "time_Parse ex_file_world ''2025-02-03T08:00:00Z'' = Some ''2025-02-03''"
  "time_Parse ex_file_world ''2025-02-03T08:00:09Z'' = Some ''2025-02-03''"
  "time_Parse ex_file_world ''yesterday'' = None"
  by (simp_all add: ex_file_world_def)

lemma ex_file_candidates:
  "lineCandidate ex_file_world ''l1'' = Some (newEntry ex_l1 ''K1:X'' ''2025-02-03'')"
  "lineCandidate ex_file_world ''l2'' = Some (newEntry ex_l2 ''K1:X'' ''2025-02-03'')"
  by (simp_all add: lineCandidate_def ex_file_unmarshal)
     (simp_all add: ex_l1_def ex_l2_def ex_file_time)


section \<open>First occurrence wins within a file (C8)\<close>

text \<open>
  C8. If line \<open>i\<close> of a file yields a candidate record \<open>e\<close> and no earlier line yields a
  candidate with the same dedupKey, then the map returned by \<^verbatim>\<open>processFileForCache\<close>
  holds \<open>e\<close> for that key, whatever the later lines are and whatever their token counts.
\<close>

theorem first_occurrence_wins:
  assumes "os_Open w path = Some lines"
    and "i < length lines"
    and "lineCandidate w (lines ! i) = Some e"
    and "\<forall>j < i. \<forall>e'. lineCandidate w (lines ! j) = Some e' \<longrightarrow> Key e' \<noteq> Key e"
  shows "map_of (fst (processFileForCache w path)) (Key e) = Some e"
proof -
  have "find (\<lambda>x. Key x = Key e) (List.map_filter (lineCandidate w) lines) = Some e"
    using assms(2-4) by (intro find_map_filter_first [of i]) auto
  then show ?thesis
    using assms(1) by (simp add: processFileForCache_def map_of_processLines)
qed

lemma line_yields_nothing_iff:
  "fst (processLine w ([], st) line) = [] \<longleftrightarrow> lineCandidate w line = None"
  by (simp add: processLine_candidate split: option.splits)

theorem first_occurrence_wins_witness:
  "map_of (fst (processFileForCache ex_file_world ''C.jsonl'')) ''K1:X'' =
     Some (newEntry ex_l1 ''K1:X'' ''2025-02-03'') \<and>
   lineCandidate ex_file_world ''l2'' = Some (newEntry ex_l2 ''K1:X'' ''2025-02-03'') \<and>
   entryTotalTokens (newEntry ex_l1 ''K1:X'' ''2025-02-03'') <s
     entryTotalTokens (newEntry ex_l2 ''K1:X'' ''2025-02-03'')"
proof -
  have c: "lineCandidate ex_file_world
             ([''l1'', ''not json'', ''l2'', ''noTs'', ''badTs''] ! 0) =
           Some (newEntry ex_l1 ''K1:X'' ''2025-02-03'')"
    by (simp add: ex_file_candidates)
  have "map_of (fst (processFileForCache ex_file_world ''C.jsonl''))
          (Key (newEntry ex_l1 ''K1:X'' ''2025-02-03'')) =
        Some (newEntry ex_l1 ''K1:X'' ''2025-02-03'')"
    by (rule first_occurrence_wins [OF ex_file_open _ c]) simp_all
  moreover have "entryTotalTokens (newEntry ex_l1 ''K1:X'' ''2025-02-03'') <s
     entryTotalTokens (newEntry ex_l2 ''K1:X'' ''2025-02-03'')"
    by (simp add: entryTotalTokens_def newEntry_def ex_l1_def ex_l2_def word_sless_alt)
  ultimately show ?thesis
    by (simp add: ex_file_candidates)
qed


section \<open>Which lines are skipped (C3)\<close>

text \<open>
  C3, as stated, fails: the line \<^verbatim>\<open>noTs\<close> parses as JSON, carries token counts (so it
  does not lack both a timestamp and token counts) and both ids, and still contributes
  no record, because line 512 skips a line when the timestamp is empty \<^emph>\<open>or\<close> the input
  and output counts are both zero.
\<close>

theorem skip_rule_counterexample:
  "json_Unmarshal ex_file_world ''noTs'' = Some ex_noTs \<and>
   Usage_InputTokens ex_noTs \<noteq> 0 \<and> Usage_OutputTokens ex_noTs \<noteq> 0 \<and>
   Usage_CacheCreationTokens ex_noTs \<noteq> 0 \<and> Usage_CacheReadTokens ex_noTs \<noteq> 0 \<and>
   Message_ID ex_noTs \<noteq> [] \<and> RequestID ex_noTs \<noteq> [] \<and>
   fst (processLine ex_file_world ([], FileStats0) ''noTs'') = []"
  by (simp add: processLine_def ex_file_unmarshal Let_def) (simp add: ex_noTs_def)

text \<open>
  C3, amended. A line contributes no record exactly when it fails to parse as JSON, or
  its timestamp is empty, or its input and output token counts are both zero, or its
  message id or its request id is empty, or its timestamp is not an RFC 3339 time;
  every other line yields the candidate record built from its fields.
\<close>

theorem line_skipped_iff:
  "(fst (processLine w ([], st) line) = [] \<longleftrightarrow>
      (case json_Unmarshal w line of
         None \<Rightarrow> True
       | Some entry \<Rightarrow>
           Timestamp entry = [] \<or>
           (Usage_InputTokens entry = 0 \<and> Usage_OutputTokens entry = 0) \<or>
           Message_ID entry = [] \<or> RequestID entry = [] \<or>
           time_Parse w (Timestamp entry) = None)) \<and>
   (\<forall>entry date.
      json_Unmarshal w line = Some entry \<and> Timestamp entry \<noteq> [] \<and>
      \<not> (Usage_InputTokens entry = 0 \<and> Usage_OutputTokens entry = 0) \<and>
      Message_ID entry \<noteq> [] \<and> RequestID entry \<noteq> [] \<and>
      time_Parse w (Timestamp entry) = Some date \<longrightarrow>
      fst (processLine w ([], st) line) =
        [(Message_ID entry @ '':'' @ RequestID entry,
          newEntry entry (Message_ID entry @ '':'' @ RequestID entry) date)])"
  by (auto simp: processLine_def Let_def split: option.splits)

theorem line_skipped_iff_witness:
  "fst (processLine ex_file_world ([], FileStats0) ''badTs'') = [] \<and>
   fst (processLine ex_file_world ([], FileStats0) ''l1'') =
     [(''K1:X'', newEntry ex_l1 ''K1:X'' ''2025-02-03'')]"
proof -
  have a: "fst (processLine ex_file_world ([], FileStats0) ''badTs'') = []"
    using line_skipped_iff [of ex_file_world FileStats0 "''badTs''"]
    by (simp add: ex_file_unmarshal) (simp add: ex_badTs_def ex_file_time)
  have "json_Unmarshal ex_file_world ''l1'' = Some ex_l1 \<and> Timestamp ex_l1 \<noteq> [] \<and>
      \<not> (Usage_InputTokens ex_l1 = 0 \<and> Usage_OutputTokens ex_l1 = 0) \<and>
      Message_ID ex_l1 \<noteq> [] \<and> RequestID ex_l1 \<noteq> [] \<and>
      time_Parse ex_file_world (Timestamp ex_l1) = Some ''2025-02-03''"
    by (simp add: ex_file_unmarshal) (simp add: ex_l1_def ex_file_time)
  with line_skipped_iff [of ex_file_world FileStats0 "''l1''"]
  have "fst (processLine ex_file_world ([], FileStats0) ''l1'') =
        [(Message_ID ex_l1 @ '':'' @ RequestID ex_l1,
          newEntry ex_l1 (Message_ID ex_l1 @ '':'' @ RequestID ex_l1) ''2025-02-03'')]"
    by blast
  then have b: "fst (processLine ex_file_world ([], FileStats0) ''l1'') =
     [(''K1:X'', newEntry ex_l1 ''K1:X'' ''2025-02-03'')]"
    by (simp add: ex_l1_def)
  from a b show ?thesis by simp
qed

section \<open>Statistics, dirty flag and re-parsed files of \<^verbatim>\<open>processWithCacheLoaded\<close>\<close>

lemma mergeEntry_hits_misses:
  "hits (snd (mergeEntry (m, st) e)) = hits st"
  "misses (snd (mergeEntry (m, st) e)) = misses st"
  by (simp_all add: mergeEntry_def split: option.splits)

lemma mergeEntries_hits_misses:
  "hits (snd (mergeEntries (m, st) es)) = hits st \<and> misses (snd (mergeEntries (m, st) es)) = misses st"
proof (induction es arbitrary: m st)
  case Nil
  then show ?case by simp
next
  case (Cons e es)
  obtain m' st' where s: "mergeEntry (m, st) e = (m', st')" by (cases "mergeEntry (m, st) e")
  with mergeEntry_hits_misses [of m st e] have "hits st' = hits st" "misses st' = misses st"
    by simp_all
  with Cons.IH [of m' st'] s show ?case by simp
qed

lemma scanFile_hits:
  "hits (p1_stats (scanFile w cache v s path)) =
     hits (p1_stats s) + (if fileIsHit w cache v path then 1 else 0)"
proof (cases "os_Stat w path")
  case None
  then show ?thesis by (simp add: scanFile_def fileIsHit_def Let_def)
next
  case (Some ms)
  obtain mtime sz where ms: "ms = (mtime, sz)" by (cases ms)
  show ?thesis
  proof (cases "isCacheHit cache v path mtime sz")
    case True
    let ?st = "(p1_stats s)\<lparr>hits := hits (p1_stats s) + 1\<rparr>"
    let ?es = "case map_of (Files cache) path of None \<Rightarrow> [] | Some cached \<Rightarrow> Entries cached"
    obtain m' st' where r: "mergeEntries (p1_allEntries s, ?st) ?es = (m', st')"
      by (cases "mergeEntries (p1_allEntries s, ?st) ?es")
    from mergeEntries_hits_misses [of "p1_allEntries s" ?st ?es] r
    have "hits st' = hits (p1_stats s) + 1" by simp
    with Some ms True r show ?thesis
      by (simp add: scanFile_def fileIsHit_def Let_def)
  next
    case False
    with Some ms show ?thesis by (simp add: scanFile_def fileIsHit_def Let_def)
  qed
qed

lemma scanFile_miss_count:
  "misses (p1_stats (scanFile w cache v s path)) =
     misses (p1_stats s) + (if fileIsMiss w cache v path then 1 else 0)"
proof (cases "os_Stat w path")
  case None
  then show ?thesis by (simp add: scanFile_def fileIsMiss_def Let_def)
next
  case (Some ms)
  obtain mtime sz where ms: "ms = (mtime, sz)" by (cases ms)
  show ?thesis
  proof (cases "isCacheHit cache v path mtime sz")
    case True
    let ?st = "(p1_stats s)\<lparr>hits := hits (p1_stats s) + 1\<rparr>"
    let ?es = "case map_of (Files cache) path of None \<Rightarrow> [] | Some cached \<Rightarrow> Entries cached"
    obtain m' st' where r: "mergeEntries (p1_allEntries s, ?st) ?es = (m', st')"
      by (cases "mergeEntries (p1_allEntries s, ?st) ?es")
    from mergeEntries_hits_misses [of "p1_allEntries s" ?st ?es] r
    have "misses st' = misses (p1_stats s)" by simp
    with Some ms True r show ?thesis
      by (simp add: scanFile_def fileIsMiss_def Let_def)
  next
    case False
    with Some ms show ?thesis by (simp add: scanFile_def fileIsMiss_def Let_def)
  qed
qed

lemma foldl_scanFile_counts:
  "hits (p1_stats (foldl (scanFile w cache v) s files)) =
     hits (p1_stats s) + length (filter (fileIsHit w cache v) files) \<and>
   misses (p1_stats (foldl (scanFile w cache v) s files)) =
     misses (p1_stats s) + length (filter (fileIsMiss w cache v) files)"
  by (induction files arbitrary: s) (simp_all add: scanFile_hits scanFile_miss_count)

lemma scanFiles_counts:
  "hits (p1_stats (scanFiles w cache v files)) = length (filter (fileIsHit w cache v) files)"
  "misses (p1_stats (scanFiles w cache v files)) = length (filter (fileIsMiss w cache v) files)"
  using foldl_scanFile_counts [of w cache v phase1_init files]
  by (simp_all add: scanFiles_def phase1_init_def cacheStats0_def)

lemma mergeResult_counts:
  "hits (snd (fst (foldl mergeResult ((m, st), cf) rs))) = hits st \<and>
   misses (snd (fst (foldl mergeResult ((m, st), cf) rs))) = misses st"
proof (induction rs arbitrary: m st cf)
  case Nil
  then show ?case by simp
next
  case (Cons r rs)
  let ?st = "st\<lparr>totalLines := totalLines st + LinesRead (fr_stats r)\<rparr>"
  obtain m' st' where s: "mergeEntries (m, ?st) (fr_entries r) = (m', st')"
    by (cases "mergeEntries (m, ?st) (fr_entries r)")
  from mergeEntries_hits_misses [of m ?st "fr_entries r"] s
  have "hits st' = hits st" "misses st' = misses st" by simp_all
  with Cons.IH [of m' st'] s show ?case by (simp add: mergeResult_def)
qed

lemma snd_mergeResult:
  "snd (mergeResult (acc, cf) r) =
     AList.update (fr_path r) \<lparr>ModTime = fr_mtime r, Size = fr_size r, Entries = fr_entries r\<rparr> cf"
  by (simp add: mergeResult_def split: prod.splits)



lemma missRecord_paths: "cm_path ` set (missRecord w cache v p) \<subseteq> {p}"
  by (auto simp: missRecord_def split: option.splits if_splits)

lemma missRecord_nonempty:
  "missRecord w cache v p \<noteq> [] \<longleftrightarrow> fileIsMiss w cache v p"
  by (auto simp: missRecord_def fileIsMiss_def split: option.splits)

lemma map_cm_path_missRecord:
  "map cm_path (missRecord w cache v p) = (if fileIsMiss w cache v p then [p] else [])"
  by (auto simp: missRecord_def fileIsMiss_def split: option.splits)

lemma reparsed_filter: "reparsed w files cache v = filter (fileIsMiss w cache v) files"
  by (induction files)
     (simp_all add: reparsed_def scanFiles_misses map_concat map_cm_path_missRecord comp_def)

lemma fr_path_parseMiss [simp]: "fr_path (parseMiss w m) = cm_path m"
  by (simp add: parseMiss_def split: prod.splits)

lemma processWithCacheLoaded_stats:
  "hits (pr_stats (processWithCacheLoaded w files cache v)) = length (filter (fileIsHit w cache v) files)"
  "misses (pr_stats (processWithCacheLoaded w files cache v)) = length (filter (fileIsMiss w cache v) files)"
proof -
  let ?s = "scanFiles w cache v files"
  let ?f = "foldl mergeResult ((p1_allEntries ?s, p1_stats ?s), Files cache) (map (parseMiss w) (p1_misses ?s))"
  have "pr_stats (processWithCacheLoaded w files cache v) = snd (fst ?f)"
    by (simp add: processWithCacheLoaded_def Let_def split: prod.splits)
  with mergeResult_counts [of "p1_allEntries ?s" "p1_stats ?s" "Files cache" "map (parseMiss w) (p1_misses ?s)"]
  show "hits (pr_stats (processWithCacheLoaded w files cache v)) = length (filter (fileIsHit w cache v) files)"
    "misses (pr_stats (processWithCacheLoaded w files cache v)) = length (filter (fileIsMiss w cache v) files)"
    by (simp_all add: scanFiles_counts)
qed


lemma concat_map_filter_nil:
  "\<forall>x \<in> set xs. \<not> P x \<longrightarrow> f x = [] \<Longrightarrow> concat (map f (filter P xs)) = concat (map f xs)"
  by (induction xs) auto

section \<open>Validity of the cache and the pieces of \<^verbatim>\<open>main\<close>\<close>

lemma isCacheHit_iff:
  "isCacheHit cache v p mtime sz \<longleftrightarrow>
     v \<and> (\<exists>cached. map_of (Files cache) p = Some cached \<and> ModTime cached = mtime \<and> Size cached = sz)"
  by (auto simp: isCacheHit_def split: option.splits)

lemma isCacheHit_invalid [simp]: "\<not> isCacheHit cache False p mtime sz"
  by (simp add: isCacheHit_def split: option.splits)

lemma fileIsHit_invalid [simp]: "\<not> fileIsHit w cache False p"
  by (simp add: fileIsHit_def split: option.splits)

lemma fileIsMiss_invalid: "fileIsMiss w cache False p \<longleftrightarrow> os_Stat w p \<noteq> None"
  by (auto simp: fileIsMiss_def split: option.splits)

lemma fileIsMiss_invalid': "fileIsMiss w cache False = (\<lambda>p. os_Stat w p \<noteq> None)"
  by (rule ext) (rule fileIsMiss_invalid)

lemma findJSONLFiles_Files:
  "\<exists>c'. dc_cache (findJSONLFiles w dk now dir (Some c)) = Some c' \<and> Files c' = Files c"
  by (simp add: findJSONLFiles_def split: prod.splits)

lemma main_processed:
  "\<exists>c'. Files c' = Files (main_cache loaded tz) \<and>
     mr_processed (main w dk now tz dir loaded) =
       processWithCacheLoaded w (dc_files (mr_discovered (main w dk now tz dir loaded))) c'
         (main_cacheValid loaded tz)"
proof -
  obtain c' where c: "dc_cache (findJSONLFiles w dk now dir (Some (main_cache loaded tz))) = Some c'"
    and f: "Files c' = Files (main_cache loaded tz)"
    using findJSONLFiles_Files [of w dk now dir "main_cache loaded tz"] by blast
  show ?thesis
    by (rule exI [of _ c']) (simp add: main_def Let_def c f)
qed

lemma main_cacheValid_field [simp]:
  "mr_cacheValid (main w dk now tz dir loaded) = main_cacheValid loaded tz"
  by (simp add: main_def Let_def)


section \<open>Unreadable files (C9)\<close>

lemma processFileForCache_unopenable:
  "os_Open w path = None \<Longrightarrow> processFileForCache w path = ([], FileStats0)"
  by (simp add: processFileForCache_def)


text \<open>
  C9, as stated, fails: \<^verbatim>\<open>A.jsonl\<close> cannot be opened, but its stat succeeds with the
  cached modification time and size, so it is a cache hit and contributes its cached
  record; the result over the readable files alone (none) is empty.
\<close>

theorem unreadable_hit_counterexample:
  "os_Open ex_locked_world ''A.jsonl'' = None \<and>
   pr_allEntries (processWithCacheLoaded ex_locked_world [''A.jsonl''] ex_cache True) =
     [(''K1:X'', ex_eA)] \<and>
   pr_allEntries (processWithCacheLoaded ex_locked_world [] ex_cache True) = []"
  by code_simp


text \<open>
  C9, amended. Parsing a file that cannot be opened yields zero records and no error.
  The merged records are those obtained from the files that can be statted and that
  either can be opened or are cache hits: a file that cannot be statted, or that is
  re-parsed and cannot be opened, contributes nothing and does not disturb the others
  (the enumeration of an empty map being empty).
\<close>

theorem unreadable_files_ignored:
  assumes "range_order w [] = []"
  shows "(\<forall>path. os_Open w path = None \<longrightarrow> processFileForCache w path = ([], FileStats0)) \<and>
         pr_allEntries (processWithCacheLoaded w files cache cacheValid) =
         pr_allEntries (processWithCacheLoaded w
                          (filter (contributes w cache cacheValid) files) cache cacheValid)"
proof -
  let ?P = "contributes w cache cacheValid"
  have h: "\<forall>x \<in> set files. \<not> ?P x \<longrightarrow> hitEntries w cache cacheValid x = []"
    by (auto simp: contributes_def hitEntries_def fileIsHit_def split: option.splits)
  have m: "\<forall>x \<in> set files. \<not> ?P x \<longrightarrow> missEntries w cache cacheValid x = []"
    using assms
    by (auto simp: contributes_def missEntries_def fileIsHit_def processFileForCache_unopenable
        split: option.splits)
  have "mergeInputs w cache cacheValid (filter ?P files) = mergeInputs w cache cacheValid files"
    unfolding mergeInputs_def
    using concat_map_filter_nil [OF h] concat_map_filter_nil [OF m] by simp
  then show ?thesis
    by (simp add: processWithCacheLoaded_allEntries [of _ _ _ _ cacheStats0]
        processFileForCache_unopenable)
qed

theorem unreadable_files_ignored_witness:
  "pr_allEntries (processWithCacheLoaded ex_locked_world
      [''A.jsonl'', ''D.jsonl'', ''missing.jsonl'', ''B.jsonl''] ex_cache True) =
   pr_allEntries (processWithCacheLoaded ex_locked_world [''A.jsonl'', ''B.jsonl''] ex_cache True) \<and>
   os_Stat ex_locked_world ''missing.jsonl'' = None \<and>
   os_Stat ex_locked_world ''D.jsonl'' \<noteq> None \<and> os_Open ex_locked_world ''D.jsonl'' = None \<and>
   processFileForCache ex_locked_world ''D.jsonl'' = ([], FileStats0)"
proof -
  have r: "range_order ex_locked_world [] = []"
    by (simp add: ex_locked_world_def ex_world_def)
  have f: "filter (contributes ex_locked_world ex_cache True)
             [''A.jsonl'', ''D.jsonl'', ''missing.jsonl'', ''B.jsonl''] = [''A.jsonl'', ''B.jsonl'']"
    by code_simp
  have o: "os_Stat ex_locked_world ''missing.jsonl'' = None"
    "os_Stat ex_locked_world ''D.jsonl'' \<noteq> None" "os_Open ex_locked_world ''D.jsonl'' = None"
    by (simp_all add: ex_locked_world_def ex_world_def)
  from unreadable_files_ignored [OF r,
      of "[''A.jsonl'', ''D.jsonl'', ''missing.jsonl'', ''B.jsonl'']" ex_cache True] f o
  show ?thesis by simp
qed

section \<open>The file list of discovery (C6)\<close>

lemma walkDir_path_shape:
  "(q, x) \<in> set (walkDir p t) \<Longrightarrow> \<exists>s. q = p @ s \<and> (s = [] \<or> (\<exists>s'. s = CHR ''/'' # s'))"
proof (induction p t arbitrary: q x rule: walkDir.induct)
  case (1 path)
  then show ?case by simp
next
  case (2 path info entries)
  show ?case
  proof (cases "q = path")
    case True
    then show ?thesis by simp
  next
    case False
    with "2.prems" obtain e where e: "e \<in> set entries"
      and q: "(q, x) \<in> set (walkDir (path @ ''/'' @ fst e) (snd e))"
      by auto
    from "2.IH" [OF e q] obtain s where "q = (path @ ''/'' @ fst e) @ s" by blast
    then have "q = path @ (CHR ''/'' # (fst e @ s))" by simp
    then show ?thesis by blast
  qed
qed

lemma first_segment:
  assumes "CHR ''/'' \<notin> set n" and "s = [] \<or> (\<exists>s'. s = CHR ''/'' # s')"
  shows "takeWhile (\<lambda>c. c \<noteq> CHR ''/'') (n @ s) = n"
proof -
  have "takeWhile (\<lambda>c. c \<noteq> CHR ''/'') (n @ s) = n @ takeWhile (\<lambda>c. c \<noteq> CHR ''/'') s"
    using assms(1) by (intro takeWhile_append2) auto
  moreover have "takeWhile (\<lambda>c. c \<noteq> CHR ''/'') s = []"
    using assms(2) by auto
  ultimately show ?thesis by simp
qed

lemma child_paths_disjoint:
  assumes "CHR ''/'' \<notin> set n" and "CHR ''/'' \<notin> set n'" and "n \<noteq> n'"
    and "(q, x) \<in> set (walkDir (p @ ''/'' @ n) t)"
    and "(q, x') \<in> set (walkDir (p @ ''/'' @ n') t')"
  shows False
proof -
  from walkDir_path_shape [OF assms(4)] obtain s where
    s: "q = (p @ ''/'' @ n) @ s" "s = [] \<or> (\<exists>s'. s = CHR ''/'' # s')" by blast
  from walkDir_path_shape [OF assms(5)] obtain r where
    r: "q = (p @ ''/'' @ n') @ r" "r = [] \<or> (\<exists>r'. r = CHR ''/'' # r')" by blast
  from s(1) [symmetric] r(1) have "(p @ ''/'' @ n) @ s = (p @ ''/'' @ n') @ r"
    by (rule trans)
  then have eq: "n @ s = n' @ r" by simp
  have "n = takeWhile (\<lambda>c. c \<noteq> CHR ''/'') (n @ s)"
    by (rule first_segment [OF assms(1) s(2), symmetric])
  also have "\<dots> = takeWhile (\<lambda>c. c \<noteq> CHR ''/'') (n' @ r)"
    by (simp only: eq)
  also have "\<dots> = n'"
    by (rule first_segment [OF assms(2) r(2)])
  finally show False using assms(3) by simp
qed

lemma distinct_concat_map:
  assumes "distinct (map key es)"
    and "\<forall>e \<in> set es. distinct (f e)"
    and "\<forall>e \<in> set es. \<forall>e' \<in> set es. key e \<noteq> key e' \<longrightarrow> set (f e) \<inter> set (f e') = {}"
  shows "distinct (concat (map f es))"
  using assms
proof (induction es)
  case Nil
  then show ?case by simp
next
  case (Cons e es)
  have "distinct (concat (map f es))"
    using Cons.prems by (intro Cons.IH) auto
  moreover have "distinct (f e)" using Cons.prems by simp
  moreover have "set (f e) \<inter> (\<Union>e' \<in> set es. set (f e')) = {}"
  proof -
    have "\<forall>e' \<in> set es. key e \<noteq> key e'" using Cons.prems(1) by auto
    with Cons.prems(3) show ?thesis by auto
  qed
  ultimately show ?case by auto
qed

lemma walkDir_distinct:
  "wf_tree t \<Longrightarrow> distinct (map fst (walkDir p t))"
proof (induction p t rule: walkDir.induct)
  case (1 path)
  then show ?case by simp
next
  case (2 path info entries)
  let ?f = "\<lambda>e. map fst (walkDir (path @ ''/'' @ fst e) (snd e))"
  have names: "distinct (map fst entries)"
    using "2.prems" by (simp add: strict_sorted_iff)
  have slash: "\<forall>e \<in> set entries. CHR ''/'' \<notin> set (fst e)"
    using "2.prems" by simp
  have each: "\<forall>e \<in> set entries. distinct (?f e)"
    using "2.IH" "2.prems" by simp
  have disj: "\<forall>e \<in> set entries. \<forall>e' \<in> set entries. fst e \<noteq> fst e' \<longrightarrow> set (?f e) \<inter> set (?f e') = {}"
  proof (intro ballI impI)
    fix e e' assume e: "e \<in> set entries" "e' \<in> set entries" and ne: "fst e \<noteq> fst e'"
    show "set (?f e) \<inter> set (?f e') = {}"
    proof (rule ccontr)
      assume "set (?f e) \<inter> set (?f e') \<noteq> {}"
      then obtain q where "q \<in> set (?f e)" "q \<in> set (?f e')" by blast
      then obtain x x' where "(q, x) \<in> set (walkDir (path @ ''/'' @ fst e) (snd e))"
        "(q, x') \<in> set (walkDir (path @ ''/'' @ fst e') (snd e'))"
        by auto
      with child_paths_disjoint [of "fst e" "fst e'" q x path "snd e" x' "snd e'"] slash e ne
      show False by blast
    qed
  qed
  have below: "distinct (concat (map ?f entries))"
    by (rule distinct_concat_map [OF names each disj])
  have top: "path \<notin> set (concat (map ?f entries))"
  proof
    assume "path \<in> set (concat (map ?f entries))"
    then obtain e x where "(path, x) \<in> set (walkDir (path @ ''/'' @ fst e) (snd e))"
      by auto
    from walkDir_path_shape [OF this] show False by simp
  qed
  have "map fst (walkDir path (DirNode info entries)) = path # concat (map ?f entries)"
    by (simp add: map_concat comp_def)
  with below top show ?case by simp
qed

lemma walkDir_subtree_wf:
  "(q, n) \<in> set (walkDir p t) \<Longrightarrow> wf_tree t \<Longrightarrow> wf_tree n"
proof (induction p t arbitrary: q n rule: walkDir.induct)
  case (1 path)
  then show ?case by simp
next
  case (2 path info entries)
  show ?case
  proof (cases "(q, n) = (path, DirNode info entries)")
    case True
    with "2.prems" show ?thesis by simp
  next
    case False
    with "2.prems"(1) obtain e where e: "e \<in> set entries"
      and q: "(q, n) \<in> set (walkDir (path @ ''/'' @ fst e) (snd e))"
      by auto
    from "2.prems"(2) e have "wf_tree (snd e)" by simp
    from "2.IH" [OF e q this] show ?thesis .
  qed
qed

lemma filepath_WalkDir_distinct:
  assumes "wf_tree (dk_tree dk)"
  shows "distinct (map fst (filepath_WalkDir dk root))"
proof (cases "map_of (walkDir (dk_root dk) (dk_tree dk)) root")
  case None
  then show ?thesis by (simp add: filepath_WalkDir_def)
next
  case (Some node)
  then have "(root, node) \<in> set (walkDir (dk_root dk) (dk_tree dk))"
    by (rule map_of_SomeD)
  from walkDir_subtree_wf [OF this assms] have "wf_tree node" .
  with Some show ?thesis by (simp add: filepath_WalkDir_def walkDir_distinct)
qed

lemma foldl_walkFn_files:
  "fst (foldl walkFn (files, dirs) vs) = files @ map fst (filter isJSONL vs)"
proof (induction vs arbitrary: files dirs)
  case Nil
  then show ?case by simp
next
  case (Cons v vs)
  obtain p n where v: "v = (p, n)" by (cases v)
  show ?case
  proof (cases n)
    case FileNode
    with v Cons.IH show ?thesis by (simp add: walkFn_def isJSONL_def)
  next
    case (DirNode info entries)
    with v Cons.IH show ?thesis
      by (cases info) (simp_all add: walkFn_def isJSONL_def)
  qed
qed

lemma fullWalkJSONL_distinct:
  "wf_tree (dk_tree dk) \<Longrightarrow> distinct (fst (fullWalkJSONL dk dir))"
  by (simp add: fullWalkJSONL_def foldl_walkFn_files distinct_map_filter filepath_WalkDir_distinct)

lemma ex_full_walk:
  "dc_files (findJSONLFiles ex_world ex_disk 1000 ''r'' (Some ex_cache)) =
     [''r/a/x.jsonl'', ''r/a.jsonl'']"
  by code_simp

lemma ex_disk_wf: "wf_tree (dk_tree ex_disk)"
  by (simp add: ex_disk_def)


text \<open>
  C6, as stated, fails in the full-walk case: \<^verbatim>\<open>WalkDir\<close> visits the directory \<^verbatim>\<open>r/a\<close>
  and its file \<^verbatim>\<open>r/a/x.jsonl\<close> before the file \<^verbatim>\<open>r/a.jsonl\<close>, since it sorts the names
  in each directory and \<^verbatim>\<open>a\<close> comes before \<^verbatim>\<open>a.jsonl\<close>; as strings,
  \<^verbatim>\<open>r/a.jsonl\<close> is the smaller one (\<^verbatim>\<open>.\<close> precedes \<^verbatim>\<open>/\<close>). The full walk returns the
  files in visiting order, without sorting them.
\<close>

theorem full_walk_unsorted_counterexample:
  "wf_tree (dk_tree ex_disk) \<and>
   dc_files (findJSONLFiles ex_world ex_disk 1000 ''r'' (Some ex_cache)) =
     [''r/a/x.jsonl'', ''r/a.jsonl''] \<and>
   ''r/a.jsonl'' < ''r/a/x.jsonl'' \<and>
   \<not> sorted (dc_files (findJSONLFiles ex_world ex_disk 1000 ''r'' (Some ex_cache)))"
  unfolding ex_full_walk by (simp add: ex_disk_wf)


text \<open>
  C6, amended. For every root directory and cache state, the file list returned by
  discovery contains no duplicate path, in the full-walk case and in the warm case; in
  the warm case it is sorted in ascending string order; in the full-walk case it is the
  list of the \<^verbatim>\<open>.jsonl\<close> files in the order in which \<^verbatim>\<open>WalkDir\<close> visits them.
\<close>

theorem discovery_distinct_sorted:
  assumes "wf_tree (dk_tree dk)"
  shows "distinct (dc_files (findJSONLFiles w dk now dir cache)) \<and>
         (\<not> needsFullWalk now cache \<longrightarrow> sorted (dc_files (findJSONLFiles w dk now dir cache))) \<and>
         (needsFullWalk now cache \<longrightarrow>
            dc_files (findJSONLFiles w dk now dir cache) = fst (fullWalkJSONL dk dir))"
proof (cases "needsFullWalk now cache")
  case True
  then have "dc_files (findJSONLFiles w dk now dir cache) = fst (fullWalkJSONL dk dir)"
    by (simp add: findJSONLFiles_def split: prod.splits)
  with True fullWalkJSONL_distinct [OF assms, of dir] show ?thesis by simp
next
  case False
  then obtain c where c: "cache = Some c" by (cases cache) (simp_all add: needsFullWalk_def)
  have "sorted (dc_files (findJSONLFiles w dk now dir cache)) \<and>
        distinct (dc_files (findJSONLFiles w dk now dir cache))"
    using False c by (auto simp: findJSONLFiles_def split: prod.splits)
  with False show ?thesis by simp
qed


theorem discovery_distinct_sorted_witness:
  "distinct (dc_files (findJSONLFiles ex_world ex_disk 1000 ''r'' (Some ex_cache))) \<and>
   dc_files (findJSONLFiles ex_world ex_disk 1000 ''r'' (Some ex_cache)) =
     fst (fullWalkJSONL ex_disk ''r'') \<and>
   distinct (dc_files (findJSONLFiles ex_warm_world ex_disk 60000001000 ''r'' (Some ex_warm_cache))) \<and>
   sorted (dc_files (findJSONLFiles ex_warm_world ex_disk 60000001000 ''r'' (Some ex_warm_cache))) \<and>
   dc_files (findJSONLFiles ex_warm_world ex_disk 60000001000 ''r'' (Some ex_warm_cache)) =
     [''r/A.jsonl'']"
proof -
  have wf: "wf_tree (dk_tree ex_disk)" by (rule ex_disk_wf)
  have full: "needsFullWalk 1000 (Some ex_cache)" by code_simp
  have warm: "\<not> needsFullWalk 60000001000 (Some ex_warm_cache)" by code_simp
  have files: "dc_files (findJSONLFiles ex_warm_world ex_disk 60000001000 ''r'' (Some ex_warm_cache)) =
     [''r/A.jsonl'']" by code_simp
  note t1 = discovery_distinct_sorted [OF wf, of ex_world 1000 "''r''" "Some ex_cache"]
  note t2 = discovery_distinct_sorted [OF wf, of ex_warm_world 60000001000 "''r''" "Some ex_warm_cache"]
  from t1
  have a: "distinct (dc_files (findJSONLFiles ex_world ex_disk 1000 ''r'' (Some ex_cache)))"
    by (rule conjunct1)
  from t1
  have "needsFullWalk 1000 (Some ex_cache) \<longrightarrow>
     dc_files (findJSONLFiles ex_world ex_disk 1000 ''r'' (Some ex_cache)) =
     fst (fullWalkJSONL ex_disk ''r'')"
    by (rule conjunct2 [THEN conjunct2])
  from this full
  have b: "dc_files (findJSONLFiles ex_world ex_disk 1000 ''r'' (Some ex_cache)) =
     fst (fullWalkJSONL ex_disk ''r'')"
    by (rule mp)
  from t2
  have c: "distinct (dc_files (findJSONLFiles ex_warm_world ex_disk 60000001000 ''r'' (Some ex_warm_cache)))"
    by (rule conjunct1)
  from t2
  have "\<not> needsFullWalk 60000001000 (Some ex_warm_cache) \<longrightarrow>
     sorted (dc_files (findJSONLFiles ex_warm_world ex_disk 60000001000 ''r'' (Some ex_warm_cache)))"
    by (rule conjunct2 [THEN conjunct1])
  from this warm
  have d: "sorted (dc_files (findJSONLFiles ex_warm_world ex_disk 60000001000 ''r'' (Some ex_warm_cache)))"
    by (rule mp)
  show ?thesis
    by (intro conjI a b c d files)
qed

section \<open>The header of the cache file\<close>

lemma header_length: "length (cacheMagic @ LittleEndian_PutUint32 v @ payload) = 8 + length payload"
  by (simp add: cacheMagic_def LittleEndian_PutUint32_def)

lemma header_magic:
  "(cacheMagic @ LittleEndian_PutUint32 v @ payload) ! 0 = cacheMagic ! 0"
  "(cacheMagic @ LittleEndian_PutUint32 v @ payload) ! 1 = cacheMagic ! 1"
  "(cacheMagic @ LittleEndian_PutUint32 v @ payload) ! 2 = cacheMagic ! 2"
  "(cacheMagic @ LittleEndian_PutUint32 v @ payload) ! 3 = cacheMagic ! 3"
  by (simp_all add: cacheMagic_def)

lemma header_payload: "drop 8 (cacheMagic @ LittleEndian_PutUint32 v @ payload) = payload"
  by (simp add: cacheMagic_def LittleEndian_PutUint32_def)

lemma header_version_bytes:
  "take 4 (drop 4 (cacheMagic @ LittleEndian_PutUint32 v @ payload)) = LittleEndian_PutUint32 v"
  by (simp add: cacheMagic_def LittleEndian_PutUint32_def)

lemma version_roundtrip:
  "LittleEndian_Uint32 (LittleEndian_PutUint32 (ucast CacheVersion)) = ucast CacheVersion"
  "(ucast (ucast CacheVersion :: 32 word) :: 64 word) = CacheVersion"
  by (simp_all add: LittleEndian_Uint32_def LittleEndian_PutUint32_def CacheVersion_def)


section \<open>When \<^verbatim>\<open>saveCache\<close> deletes the legacy file (C5)\<close>

lemma ex_encode: "encodeCache (ex_gob c) c =
   Some (cacheMagic @ LittleEndian_PutUint32 (ucast CacheVersion) @ ex_payload)"
  by (simp add: encodeCache_def ex_gob_def)


text \<open>
  C5, as stated, fails: \<^verbatim>\<open>saveCache\<close> removes the legacy file (line 485) before it
  renames the temporary file onto the cache path (line 487). When the rename fails,
  \<^verbatim>\<open>saveCache\<close> returns the error, the cache file has not been rewritten, and the legacy
  file is gone.
\<close>

theorem rename_failure_counterexample:
  "cache_json ex_cacheDir \<noteq> None \<and>
   fst (saveCache (ex_gob ex_cache)
          \<lparr>MkdirAll_fails = False, WriteFile_outcome = WriteOk, Remove_fails = False,
           Rename_fails = True\<rparr> ex_cache ex_cacheDir) = Some RenameError \<and>
   cache_json (snd (saveCache (ex_gob ex_cache)
          \<lparr>MkdirAll_fails = False, WriteFile_outcome = WriteOk, Remove_fails = False,
           Rename_fails = True\<rparr> ex_cache ex_cacheDir)) = None \<and>
   cache_bin (snd (saveCache (ex_gob ex_cache)
          \<lparr>MkdirAll_fails = False, WriteFile_outcome = WriteOk, Remove_fails = False,
           Rename_fails = True\<rparr> ex_cache ex_cacheDir)) = None"
  by (simp add: saveCache_def ex_encode Let_def ex_cacheDir_def)


text \<open>
  C5, amended. When saving the cache, the legacy file is deleted only after the
  new-format cache has been encoded and written in full to the temporary file (the
  rename onto the cache path comes after the deletion); if creating the directory,
  encoding, or writing the temporary file fails, \<^verbatim>\<open>saveCache\<close> returns an error and
  the legacy file is as it was.
\<close>

theorem legacy_deleted_after_temp_write:
  "(cache_json fs \<noteq> None \<and> cache_json (snd (saveCache g sys cache fs)) = None \<longrightarrow>
      \<not> MkdirAll_fails sys \<and> WriteFile_outcome sys = WriteOk \<and>
      (\<exists>bytes. encodeCache g cache = Some bytes \<and>
         (Rename_fails sys \<longrightarrow> cache_bin_tmp (snd (saveCache g sys cache fs)) = Some bytes) \<and>
         (\<not> Rename_fails sys \<longrightarrow>
            fst (saveCache g sys cache fs) = None \<and>
            cache_bin (snd (saveCache g sys cache fs)) = Some bytes))) \<and>
   (MkdirAll_fails sys \<or> encodeCache g cache = None \<or> WriteFile_outcome sys \<noteq> WriteOk \<longrightarrow>
      fst (saveCache g sys cache fs) \<noteq> None \<and>
      cache_json (snd (saveCache g sys cache fs)) = cache_json fs)"
  by (auto simp: saveCache_def Let_def split: option.splits writeOutcome.splits)


theorem legacy_deleted_after_temp_write_witness:
  "cache_json (snd (saveCache (ex_gob ex_cache)
          \<lparr>MkdirAll_fails = False, WriteFile_outcome = WriteFailed None, Remove_fails = False,
           Rename_fails = False\<rparr> ex_cache ex_cacheDir)) = cache_json ex_cacheDir \<and>
   cache_json ex_cacheDir \<noteq> None \<and>
   cache_json (snd (saveCache (ex_gob ex_cache)
          \<lparr>MkdirAll_fails = False, WriteFile_outcome = WriteOk, Remove_fails = False,
           Rename_fails = False\<rparr> ex_cache ex_cacheDir)) = None \<and>
   cache_bin (snd (saveCache (ex_gob ex_cache)
          \<lparr>MkdirAll_fails = False, WriteFile_outcome = WriteOk, Remove_fails = False,
           Rename_fails = False\<rparr> ex_cache ex_cacheDir)) = encodeCache (ex_gob ex_cache) ex_cache"
proof -
  let ?bad = "\<lparr>MkdirAll_fails = False, WriteFile_outcome = WriteFailed None, Remove_fails = False,
           Rename_fails = False\<rparr>"
  let ?ok = "\<lparr>MkdirAll_fails = False, WriteFile_outcome = WriteOk, Remove_fails = False,
           Rename_fails = False\<rparr>"
  have h1: "MkdirAll_fails ?bad \<or> encodeCache (ex_gob ex_cache) ex_cache = None \<or>
        WriteFile_outcome ?bad \<noteq> WriteOk"
    by simp
  from legacy_deleted_after_temp_write [of ex_cacheDir "ex_gob ex_cache" ?bad ex_cache] h1
  have a: "cache_json (snd (saveCache (ex_gob ex_cache) ?bad ex_cache ex_cacheDir)) =
        cache_json ex_cacheDir"
    by blast
  have b: "cache_json ex_cacheDir \<noteq> None" by (simp add: ex_cacheDir_def)
  have c: "cache_json (snd (saveCache (ex_gob ex_cache) ?ok ex_cache ex_cacheDir)) = None"
    by (simp add: saveCache_def ex_encode Let_def)
  have r: "\<not> Rename_fails ?ok" by simp
  from legacy_deleted_after_temp_write [of ex_cacheDir "ex_gob ex_cache" ?ok ex_cache] b c r
  have "\<exists>bytes. encodeCache (ex_gob ex_cache) ex_cache = Some bytes \<and>
      cache_bin (snd (saveCache (ex_gob ex_cache) ?ok ex_cache ex_cacheDir)) = Some bytes"
    by blast
  then have d: "cache_bin (snd (saveCache (ex_gob ex_cache) ?ok ex_cache ex_cacheDir)) =
      encodeCache (ex_gob ex_cache) ex_cache"
    by auto
  from a b c d show ?thesis by (intro conjI)
qed

section \<open>String interning and the round trip of the cache file (C2)\<close>

lemma update_fresh: "k \<notin> fst ` set al \<Longrightarrow> AList.update k v al = al @ [(k, v)]"
  by (induction al) auto

lemma intern_spec:
  assumes "internOK st" and "intern st s = (i, st')"
  shows "internOK st'"
    and "\<exists>ext. stringTable st' = stringTable st @ ext"
    and "0 \<le> i" and "i < int (length (stringTable st'))" and "stringTable st' ! nat i = s"
proof -
  have "internOK st' \<and> (\<exists>ext. stringTable st' = stringTable st @ ext) \<and>
        0 \<le> i \<and> i < int (length (stringTable st')) \<and> stringTable st' ! nat i = s"
  proof (cases "map_of (stringIndex st) s")
    case (Some idx)
    with assms(2) have "i = idx" "st' = st" by (simp_all add: intern_def)
    with assms(1) Some show ?thesis by (simp add: internOK_def)
  next
    case None
    with assms(2) have i: "i = int (length (stringTable st))"
      and st': "st' = \<lparr>stringIndex = AList.update s i (stringIndex st),
                      stringTable = stringTable st @ [s]\<rparr>"
      by (auto simp: intern_def Let_def)
    have "internOK st'"
      unfolding internOK_def
    proof (intro allI impI)
      fix s2 i2
      assume a: "map_of (stringIndex st') s2 = Some i2"
      show "0 \<le> i2 \<and> i2 < int (length (stringTable st')) \<and> stringTable st' ! nat i2 = s2"
      proof (cases "s2 = s")
        case True
        with a st' have "i2 = i" by (simp add: update_conv')
        with True i st' show ?thesis by simp
      next
        case False
        with a st' have "map_of (stringIndex st) s2 = Some i2" by (simp add: update_conv')
        with assms(1) have "0 \<le> i2" "i2 < int (length (stringTable st))"
          "stringTable st ! nat i2 = s2"
          by (auto simp: internOK_def)
        with st' show ?thesis by (auto simp: nth_append)
      qed
    qed
    with i st' show ?thesis by simp
  qed
  then show "internOK st'"
    and "\<exists>ext. stringTable st' = stringTable st @ ext"
    and "0 \<le> i" and "i < int (length (stringTable st'))" and "stringTable st' ! nat i = s"
    by blast+
qed

lemma lookup_ext:
  "0 \<le> i \<Longrightarrow> i < int (length tbl) \<Longrightarrow>
   i < int (length (tbl @ ext)) \<and> (tbl @ ext) ! nat i = tbl ! nat i"
  by (auto simp: nth_append)

lemma decodeEntry_fields:
  assumes "0 \<le> d" "d < int (length tbl)" "tbl ! nat d = Date e"
    and "0 \<le> m" "m < int (length tbl)" "tbl ! nat m = Model e"
  shows "decodeEntry tbl
           \<lparr>ee_Key = Key e, ee_DateIdx = d, ee_ModelIdx = m, ee_InputTokens = InputTokens e,
            ee_OutputTokens = OutputTokens e, ee_CacheCreationTokens = CacheCreationTokens e,
            ee_CacheReadTokens = CacheReadTokens e\<rparr> = e"
  using assms by (cases e) (simp add: decodeEntry_def)

lemma encodeEntry_spec:
  assumes "internOK st" and "encodeEntry st e = (ee, st')"
  shows "internOK st'"
    and "\<exists>ext. stringTable st' = stringTable st @ ext"
    and "\<forall>ext. decodeEntry (stringTable st' @ ext) ee = e"
proof -
  obtain d st1 where 1: "intern st (Date e) = (d, st1)" by (cases "intern st (Date e)")
  obtain m st2 where 2: "intern st1 (Model e) = (m, st2)" by (cases "intern st1 (Model e)")
  from assms(2) 1 2 have st': "st' = st2"
    and ee: "ee = \<lparr>ee_Key = Key e, ee_DateIdx = d, ee_ModelIdx = m, ee_InputTokens = InputTokens e,
            ee_OutputTokens = OutputTokens e, ee_CacheCreationTokens = CacheCreationTokens e,
            ee_CacheReadTokens = CacheReadTokens e\<rparr>"
    by (simp_all add: encodeEntry_def)
  note i1 = intern_spec [OF assms(1) 1]
  note i2 = intern_spec [OF i1(1) 2]
  from i1(2) obtain ext1 where e1: "stringTable st1 = stringTable st @ ext1" ..
  from i2(2) obtain ext2 where e2: "stringTable st2 = stringTable st1 @ ext2" ..
  show "internOK st'" using i2(1) st' by simp
  show "\<exists>ext. stringTable st' = stringTable st @ ext"
    using e1 e2 st' by simp
  show "\<forall>ext. decodeEntry (stringTable st' @ ext) ee = e"
  proof
    fix ext
    have d: "d < int (length (stringTable st1 @ (ext2 @ ext))) \<and>
             (stringTable st1 @ (ext2 @ ext)) ! nat d = stringTable st1 ! nat d"
      using i1(3,4) by (rule lookup_ext)
    have m: "m < int (length (stringTable st2 @ ext)) \<and>
             (stringTable st2 @ ext) ! nat m = stringTable st2 ! nat m"
      using i2(3,4) by (rule lookup_ext)
    have t: "stringTable st' @ ext = stringTable st1 @ (ext2 @ ext)"
      using e2 st' by simp
    show "decodeEntry (stringTable st' @ ext) ee = e"
      unfolding ee
    proof (rule decodeEntry_fields)
      show "0 \<le> d" by (rule i1(3))
      show "d < int (length (stringTable st' @ ext))" unfolding t using d by simp
      show "(stringTable st' @ ext) ! nat d = Date e" unfolding t using d i1(5) by simp
      show "0 \<le> m" by (rule i2(3))
      show "m < int (length (stringTable st' @ ext))" unfolding st' using m by simp
      show "(stringTable st' @ ext) ! nat m = Model e" unfolding st' using m i2(5) by simp
    qed
  qed
qed

lemma encodeEntries_spec:
  assumes "internOK st" and "encodeEntries st es = (ees, st')"
  shows "internOK st' \<and> (\<exists>ext. stringTable st' = stringTable st @ ext) \<and>
         (\<forall>ext. map (decodeEntry (stringTable st' @ ext)) ees = es)"
  using assms
proof (induction es arbitrary: st ees st')
  case Nil
  then show ?case by simp
next
  case (Cons e es)
  obtain ee st1 where 1: "encodeEntry st e = (ee, st1)" by (cases "encodeEntry st e")
  obtain ees1 st2 where 2: "encodeEntries st1 es = (ees1, st2)" by (cases "encodeEntries st1 es")
  from Cons.prems(2) 1 2 have r: "ees = ee # ees1" "st' = st2" by simp_all
  note h = encodeEntry_spec [OF Cons.prems(1) 1]
  from Cons.IH [OF h(1) 2]
  have ok: "internOK st2" and ex: "\<exists>ext. stringTable st2 = stringTable st1 @ ext"
    and dec: "\<forall>ext. map (decodeEntry (stringTable st2 @ ext)) ees1 = es"
    by blast+
  from ex obtain ext2 where e2: "stringTable st2 = stringTable st1 @ ext2" ..
  from h(2) obtain ext1 where e1: "stringTable st1 = stringTable st @ ext1" ..
  have "\<forall>ext. decodeEntry (stringTable st2 @ ext) ee = e"
  proof
    fix ext
    from h(3) have "decodeEntry (stringTable st1 @ (ext2 @ ext)) ee = e" by blast
    then show "decodeEntry (stringTable st2 @ ext) ee = e" by (simp add: e2)
  qed
  with ok dec e1 e2 r show ?case by simp
qed

lemma encodeFiles_spec:
  assumes "internOK st" and "distinct (map fst fs)" and "fst ` set acc \<inter> fst ` set fs = {}"
    and "foldl encodeFile (acc, st) fs = (acc', st')"
  shows "internOK st' \<and> (\<exists>ext. stringTable st' = stringTable st @ ext) \<and>
         (\<exists>encs. acc' = acc @ encs \<and> map fst encs = map fst fs \<and>
            (\<forall>ext. map (\<lambda>f. (fst f, decodeFileEntry (stringTable st' @ ext) (snd f))) encs = fs))"
  using assms
proof (induction fs arbitrary: acc st)
  case Nil
  then show ?case by simp
next
  case (Cons f fs)
  obtain path fe where f: "f = (path, fe)" by (cases f)
  obtain entries st1 where 1: "encodeEntries st (Entries fe) = (entries, st1)"
    by (cases "encodeEntries st (Entries fe)")
  let ?ef = "\<lparr>ef_ModTime = ModTime fe, ef_Size = Size fe, ef_Entries = entries\<rparr>"
  have fresh: "path \<notin> fst ` set acc" using Cons.prems(3) f by auto
  have step: "encodeFile (acc, st) f = (acc @ [(path, ?ef)], st1)"
    by (simp add: encodeFile_def f 1 update_fresh [OF fresh])
  from encodeEntries_spec [OF Cons.prems(1) 1]
  have ok1: "internOK st1" and ex1: "\<exists>ext. stringTable st1 = stringTable st @ ext"
    and dec1: "\<forall>ext. map (decodeEntry (stringTable st1 @ ext)) entries = Entries fe"
    by blast+
  have d': "distinct (map fst fs)" using Cons.prems(2) by simp
  have disj': "fst ` set (acc @ [(path, ?ef)]) \<inter> fst ` set fs = {}"
    using Cons.prems(2,3) f by auto
  have fold': "foldl encodeFile (acc @ [(path, ?ef)], st1) fs = (acc', st')"
    using Cons.prems(4) step by simp
  from Cons.IH [OF ok1 d' disj' fold']
  obtain encs where ok: "internOK st'" and ex2: "\<exists>ext. stringTable st' = stringTable st1 @ ext"
    and acc': "acc' = (acc @ [(path, ?ef)]) @ encs" and keys: "map fst encs = map fst fs"
    and dec: "\<forall>ext. map (\<lambda>f. (fst f, decodeFileEntry (stringTable st' @ ext) (snd f))) encs = fs"
    by blast
  from ex1 obtain ext1 where e1: "stringTable st1 = stringTable st @ ext1" ..
  from ex2 obtain ext2 where e2: "stringTable st' = stringTable st1 @ ext2" ..
  have head: "\<forall>ext. decodeFileEntry (stringTable st' @ ext) ?ef = fe"
  proof
    fix ext
    from dec1 have "map (decodeEntry (stringTable st1 @ (ext2 @ ext))) entries = Entries fe"
      by blast
    then show "decodeFileEntry (stringTable st' @ ext) ?ef = fe"
      by (cases fe) (simp add: decodeFileEntry_def e2)
  qed
  show ?case
  proof (intro conjI)
    show "internOK st'" by (rule ok)
    show "\<exists>ext. stringTable st' = stringTable st @ ext" using e1 e2 by simp
    show "\<exists>encs. acc' = acc @ encs \<and> map fst encs = map fst (f # fs) \<and>
            (\<forall>ext. map (\<lambda>f. (fst f, decodeFileEntry (stringTable st' @ ext) (snd f))) encs = f # fs)"
      by (rule exI [of _ "(path, ?ef) # encs"]) (simp add: acc' keys f head dec)
  qed
qed

lemma decodeFiles_map:
  assumes "distinct (map fst xs)" and "fst ` set acc \<inter> fst ` set xs = {}"
  shows "foldl (decodeFile tbl) acc xs = acc @ map (\<lambda>f. (fst f, decodeFileEntry tbl (snd f))) xs"
  using assms
proof (induction xs arbitrary: acc)
  case Nil
  then show ?case by simp
next
  case (Cons x xs)
  obtain path fe where x: "x = (path, fe)" by (cases x)
  have fresh: "path \<notin> fst ` set acc" using Cons.prems(2) x by auto
  have step: "decodeFile tbl acc x = acc @ [(path, decodeFileEntry tbl fe)]"
    by (simp add: decodeFile_def x update_fresh [OF fresh])
  have "foldl (decodeFile tbl) (acc @ [(path, decodeFileEntry tbl fe)]) xs =
        (acc @ [(path, decodeFileEntry tbl fe)]) @ map (\<lambda>f. (fst f, decodeFileEntry tbl (snd f))) xs"
    using Cons.prems x by (intro Cons.IH) auto
  with step x show ?case by simp
qed

lemma internOK_init: "internOK \<lparr>stringIndex = [], stringTable = []\<rparr>"
  by (simp add: internOK_def)

lemma buildEncoded_decodes:
  assumes "distinct (map fst (Files c))"
  shows "0 < length (ec_StringTable (buildEncoded c)) \<and>
         ec_StringTable (buildEncoded c) ! 0 = Timezone c \<and>
         foldl (decodeFile (ec_StringTable (buildEncoded c))) [] (ec_Files (buildEncoded c)) = Files c \<and>
         ec_Dirs (buildEncoded c) = Dirs c \<and> ec_LastFullWalk (buildEncoded c) = LastFullWalk c"
proof -
  let ?init = "\<lparr>stringIndex = [], stringTable = []\<rparr>"
  have 0: "intern ?init (Timezone c) =
             (0, \<lparr>stringIndex = [(Timezone c, 0)], stringTable = [Timezone c]\<rparr>)"
    by (simp add: intern_def)
  let ?st0 = "\<lparr>stringIndex = [(Timezone c, 0)], stringTable = [Timezone c]\<rparr>"
  have ok0: "internOK ?st0"
    using intern_spec(1) [OF internOK_init 0] .
  obtain files st where f: "foldl encodeFile ([], ?st0) (Files c) = (files, st)"
    by (cases "foldl encodeFile ([], ?st0) (Files c)")
  have be: "buildEncoded c = \<lparr>ec_StringTable = stringTable st, ec_Files = files,
              ec_Dirs = Dirs c, ec_LastFullWalk = LastFullWalk c\<rparr>"
    by (simp add: buildEncoded_def 0 f)
  from encodeFiles_spec [OF ok0 assms _ f]
  obtain ext encs where tbl: "stringTable st = [Timezone c] @ ext"
    and files: "files = encs" and keys: "map fst encs = map fst (Files c)"
    and dec: "\<forall>ext. map (\<lambda>f. (fst f, decodeFileEntry (stringTable st @ ext) (snd f))) encs = Files c"
    by auto
  from dec have dec0: "map (\<lambda>f. (fst f, decodeFileEntry (stringTable st) (snd f))) encs = Files c"
    by (metis append_Nil2)
  have "foldl (decodeFile (stringTable st)) [] encs =
          [] @ map (\<lambda>f. (fst f, decodeFileEntry (stringTable st) (snd f))) encs"
    using assms keys by (intro decodeFiles_map) simp_all
  with dec0 have "foldl (decodeFile (stringTable st)) [] encs = Files c" by simp
  with tbl files show ?thesis by (simp add: be)
qed

lemma ex_buildEncoded:
  "ec_StringTable (buildEncoded ex_cache) = [''UTC'', ''2025-01-01'', ''sonnet'']"
  "map fst (ec_Files (buildEncoded ex_cache)) = [''A.jsonl'', ''B.jsonl'']"
  by (simp_all add: buildEncoded_def intern_def encodeFile_def encodeEntry_def ex_cache_def
      ex_eA_def Let_def)


text \<open>
  C2. Let \<open>c\<close> be a snapshot whose version is the current format version (its file
  entries keyed by distinct paths, as in any Go map), and let gob hand back on decoding
  the structure it was given to encode. Then encoding \<open>c\<close> succeeds, and decoding the
  bytes yields \<open>c\<close> again: the same file entries (paths, modification times, sizes and
  record lists with their keys, dates, models and token counts), the same directory
  manifest, the same time of the last full walk and the same timezone label. The empty
  snapshot is one such \<open>c\<close>.
\<close>

theorem cache_roundtrip:
  assumes "Version c = CacheVersion"
    and "distinct (map fst (Files c))"
    and "gob_Encode g (buildEncoded c) = Some payload"
    and "gob_Decode g payload = Some (buildEncoded c)"
  shows "encodeCache g c \<noteq> None \<and> loadCache g legacy (encodeCache g c) = Some c"
proof -
  define bytes where "bytes = cacheMagic @ LittleEndian_PutUint32 (ucast CacheVersion) @ payload"
  have enc: "encodeCache g c = Some bytes"
    using assms(3) by (simp add: encodeCache_def bytes_def)
  have len: "\<not> length bytes < 8"
    unfolding bytes_def header_length by simp
  have magic: "bytes ! 0 = cacheMagic ! 0" "bytes ! 1 = cacheMagic ! 1"
    "bytes ! 2 = cacheMagic ! 2" "bytes ! 3 = cacheMagic ! 3"
    unfolding bytes_def by (rule header_magic)+
  have ver: "LittleEndian_Uint32 (take 4 (drop 4 bytes)) = ucast CacheVersion"
    unfolding bytes_def header_version_bytes by (rule version_roundtrip)
  have pay: "drop 8 bytes = payload"
    unfolding bytes_def by (rule header_payload)
  note b = buildEncoded_decodes [OF assms(2)]
  have "loadCache g legacy (Some bytes) =
          Some \<lparr>Version = CacheVersion, Timezone = Timezone c, Files = Files c, Dirs = Dirs c,
                LastFullWalk = LastFullWalk c\<rparr>"
    using b magic
    by (simp add: loadCache_def len ver pay version_roundtrip assms(4) Let_def)
  also have "\<dots> = Some c"
    using assms(1) by (cases c) simp
  finally show ?thesis using enc by simp
qed


theorem cache_roundtrip_witness:
  "loadCache (ex_gob ex_cache) None (encodeCache (ex_gob ex_cache) ex_cache) = Some ex_cache \<and>
   loadCache (ex_gob ex_empty_cache) None (encodeCache (ex_gob ex_empty_cache) ex_empty_cache) =
     Some ex_empty_cache \<and>
   encodeCache (ex_gob ex_cache) ex_cache \<noteq> None"
proof -
  have v: "Version ex_cache = CacheVersion" "Version ex_empty_cache = CacheVersion"
    by (simp_all add: ex_cache_def ex_empty_cache_def CacheVersion_def)
  have d: "distinct (map fst (Files ex_cache))" "distinct (map fst (Files ex_empty_cache))"
    by (simp_all add: ex_cache_def ex_empty_cache_def)
  have e: "gob_Encode (ex_gob ex_cache) (buildEncoded ex_cache) = Some ex_payload"
    "gob_Encode (ex_gob ex_empty_cache) (buildEncoded ex_empty_cache) = Some ex_payload"
    by (simp_all add: ex_gob_def)
  have g: "gob_Decode (ex_gob ex_cache) ex_payload = Some (buildEncoded ex_cache)"
    "gob_Decode (ex_gob ex_empty_cache) ex_payload = Some (buildEncoded ex_empty_cache)"
    by (simp_all add: ex_gob_def)
  from cache_roundtrip [OF v(1) d(1) e(1) g(1), of None]
    cache_roundtrip [OF v(2) d(2) e(2) g(2), of None]
  show ?thesis by simp
qed

section \<open>Which files are re-parsed (C4)\<close>

lemma cleanup_keeps:
  "p \<in> E \<Longrightarrow> map_of (snd (foldl (cleanupFile E) (d, cf) ks)) p = map_of cf p"
  by (induction ks arbitrary: d cf) (auto simp: cleanupFile_def delete_conv')

lemma mergeResult_entry:
  assumes "\<forall>r \<in> set rs. fr_path r = p \<longrightarrow>
             \<lparr>ModTime = fr_mtime r, Size = fr_size r, Entries = fr_entries r\<rparr> = X"
  shows "map_of (snd (foldl mergeResult (acc, cf) rs)) p =
           (if p \<in> fr_path ` set rs then Some X else map_of cf p)"
  using assms
proof (induction rs arbitrary: acc cf)
  case Nil
  then show ?case by simp
next
  case (Cons r rs)
  obtain acc' cf' where s: "mergeResult (acc, cf) r = (acc', cf')"
    by (cases "mergeResult (acc, cf) r")
  with snd_mergeResult [of acc cf r]
  have cf': "cf' = AList.update (fr_path r)
                 \<lparr>ModTime = fr_mtime r, Size = fr_size r, Entries = fr_entries r\<rparr> cf"
    by simp
  have ih: "map_of (snd (foldl mergeResult (acc', cf') rs)) p =
           (if p \<in> fr_path ` set rs then Some X else map_of cf' p)"
    using Cons.prems by (intro Cons.IH) simp
  show ?case
  proof (cases "fr_path r = p")
    case True
    with Cons.prems have "map_of cf' p = Some X"
      by (simp add: cf' update_conv')
    with ih True s show ?thesis by simp
  next
    case False
    then have "map_of cf' p = map_of cf p"
      by (simp add: cf' update_conv')
    with ih False s show ?thesis by auto
  qed
qed

lemma missRecord_stat:
  "m \<in> set (missRecord w cache v q) \<Longrightarrow>
     cm_path m = q \<and> os_Stat w q = Some (cm_mtime m, cm_size m)"
  by (auto simp: missRecord_def split: option.splits if_splits)

lemma parseMiss_entry:
  "\<lparr>ModTime = fr_mtime (parseMiss w m), Size = fr_size (parseMiss w m),
    Entries = fr_entries (parseMiss w m)\<rparr> = parsedEntry w (cm_path m) (cm_mtime m) (cm_size m)"
  by (simp add: parseMiss_def parsedEntry_def split: prod.splits)

lemma processWithCacheLoaded_Files:
  assumes "p \<in> set files"
  shows "map_of (Files (pr_cache (processWithCacheLoaded w files cache v))) p =
           (case os_Stat w p of
              None \<Rightarrow> map_of (Files cache) p
            | Some (mtime, sz) \<Rightarrow>
                if isCacheHit cache v p mtime sz then map_of (Files cache) p
                else Some (parsedEntry w p mtime sz))"
proof -
  let ?s = "scanFiles w cache v files"
  let ?rs = "map (parseMiss w) (p1_misses ?s)"
  let ?f = "foldl mergeResult ((p1_allEntries ?s, p1_stats ?s), Files cache) ?rs"
  have cf: "Files (pr_cache (processWithCacheLoaded w files cache v)) =
        snd (foldl (cleanupFile (p1_existingFiles ?s))
               (if p1_misses ?s \<noteq> [] then True else if \<not> v then True else False, snd ?f)
               (map fst (snd ?f)))"
    by (simp add: processWithCacheLoaded_def Let_def split: prod.splits)
  have keep: "map_of (Files (pr_cache (processWithCacheLoaded w files cache v))) p = map_of (snd ?f) p"
    unfolding cf using assms by (intro cleanup_keeps) (simp add: scanFiles_existing)
  have paths: "fr_path ` set ?rs = set (reparsed w files cache v)"
    by (simp add: reparsed_def image_image)
  show ?thesis
  proof (cases "os_Stat w p")
    case None
    then have "p \<notin> set (reparsed w files cache v)"
      by (simp add: reparsed_filter fileIsMiss_def)
    with paths have no: "p \<notin> fr_path ` set ?rs" by simp
    then have "\<forall>r \<in> set ?rs. fr_path r = p \<longrightarrow>
             \<lparr>ModTime = fr_mtime r, Size = fr_size r, Entries = fr_entries r\<rparr> = parsedEntry w p 0 0"
      by blast
    from mergeResult_entry [OF this, of "(p1_allEntries ?s, p1_stats ?s)" "Files cache"] no
    have "map_of (snd ?f) p = map_of (Files cache) p" by simp
    with keep None show ?thesis by simp
  next
    case (Some a)
    obtain mtime sz where a: "a = (mtime, sz)" by (cases a)
    have X: "\<forall>r \<in> set ?rs. fr_path r = p \<longrightarrow>
             \<lparr>ModTime = fr_mtime r, Size = fr_size r, Entries = fr_entries r\<rparr> = parsedEntry w p mtime sz"
    proof (intro ballI impI)
      fix r assume r: "r \<in> set ?rs" and rp: "fr_path r = p"
      then obtain m where m: "m \<in> set (p1_misses ?s)" and rm: "r = parseMiss w m" by auto
      from m obtain q where "m \<in> set (missRecord w cache v q)"
        by (auto simp: scanFiles_misses)
      from missRecord_stat [OF this] rp rm Some a
      have "cm_path m = p" "cm_mtime m = mtime" "cm_size m = sz" by auto
      with parseMiss_entry [of w m] rm
      show "\<lparr>ModTime = fr_mtime r, Size = fr_size r, Entries = fr_entries r\<rparr> = parsedEntry w p mtime sz"
        by simp
    qed
    have "p \<in> set (reparsed w files cache v) \<longleftrightarrow> \<not> isCacheHit cache v p mtime sz"
      using assms Some a by (simp add: reparsed_filter fileIsMiss_def)
    with mergeResult_entry [OF X, of "(p1_allEntries ?s, p1_stats ?s)" "Files cache"] paths
    have "map_of (snd ?f) p =
            (if isCacheHit cache v p mtime sz then map_of (Files cache) p
             else Some (parsedEntry w p mtime sz))"
      by auto
    with keep Some a show ?thesis by simp
  qed
qed


text \<open>
  C4, as stated, fails: \<^verbatim>\<open>r/a.jsonl\<close> is a dangling symbolic link, so discovery lists it
  and its stat fails. It has no cached entry, and in the second run the loaded cache has
  another timezone, yet it is never queued for parsing: lines 586-589 skip it. Of the two
  discovered files only \<^verbatim>\<open>r/a/x.jsonl\<close> is re-parsed.
\<close>

theorem unstatable_not_reparsed_counterexample:
  "dc_files (findJSONLFiles ex_dangling_world ex_disk 1000 ''r'' (Some ex_empty_cache)) =
     [''r/a/x.jsonl'', ''r/a.jsonl''] \<and>
   map_of (Files ex_empty_cache) ''r/a.jsonl'' = None \<and>
   reparsed ex_dangling_world [''r/a/x.jsonl'', ''r/a.jsonl''] ex_empty_cache True =
     [''r/a/x.jsonl''] \<and>
   dc_files (mr_discovered
     (main ex_dangling_world ex_disk 1000 ''UTC'' ''r'' (Some (ex_proj_cache\<lparr>Timezone := ''PST''\<rparr>)))) =
     [''r/a/x.jsonl'', ''r/a.jsonl''] \<and>
   misses (pr_stats (mr_processed
     (main ex_dangling_world ex_disk 1000 ''UTC'' ''r'' (Some (ex_proj_cache\<lparr>Timezone := ''PST''\<rparr>))))) = 1 \<and>
   map_of (Files (pr_cache (mr_processed
     (main ex_dangling_world ex_disk 1000 ''UTC'' ''r'' (Some (ex_proj_cache\<lparr>Timezone := ''PST''\<rparr>))))))
     ''r/a.jsonl'' = None"
  by code_simp


text \<open>
  C4, amended. A discovered file is re-parsed (queued as a miss in phase 1, handed to
  \<^verbatim>\<open>processFileForCache\<close> in phase 2, its cache entry rewritten in phase 3) if and only if
  its stat succeeds and the cache is invalid, or the file has no cached entry, or the
  cached entry's modification time or size differs from the stat; a discovered file whose
  stat fails is skipped. The cache entry of a re-parsed file becomes the stat and the
  records just parsed from it, the entry of any other discovered file is left as it was.
  When \<^verbatim>\<open>main\<close> has no loaded cache, or one whose version or timezone differs from the
  current one, the cache is invalid, the hit count of the run is zero, the miss count is
  the number of discovered files that can be statted, and each of these gets a freshly
  parsed cache entry, whatever the disk holds.
\<close>

theorem reparse_iff:
  assumes "p \<in> set files"
  shows "(p \<in> set (reparsed w files cache cacheValid) \<longleftrightarrow>
            (\<exists>mtime sz. os_Stat w p = Some (mtime, sz) \<and>
               (\<not> cacheValid \<or> map_of (Files cache) p = None \<or>
                (\<exists>cached. map_of (Files cache) p = Some cached \<and>
                           (ModTime cached \<noteq> mtime \<or> Size cached \<noteq> sz))))) \<and>
         (\<forall>mtime sz. p \<in> set (reparsed w files cache cacheValid) \<and> os_Stat w p = Some (mtime, sz) \<longrightarrow>
            map_of (Files (pr_cache (processWithCacheLoaded w files cache cacheValid))) p =
              Some \<lparr>ModTime = mtime, Size = sz,
                    Entries = range_order w (map snd (fst (processFileForCache w p)))\<rparr>) \<and>
         (p \<notin> set (reparsed w files cache cacheValid) \<longrightarrow>
            map_of (Files (pr_cache (processWithCacheLoaded w files cache cacheValid))) p =
              map_of (Files cache) p) \<and>
         (loaded = None \<or> (\<exists>c. loaded = Some c \<and> (Version c \<noteq> CacheVersion \<or> Timezone c \<noteq> tz)) \<longrightarrow>
            \<not> mr_cacheValid (main w dk now tz dir loaded) \<and>
            hits (pr_stats (mr_processed (main w dk now tz dir loaded))) = 0 \<and>
            misses (pr_stats (mr_processed (main w dk now tz dir loaded))) =
              length (filter (\<lambda>q. os_Stat w q \<noteq> None)
                        (dc_files (mr_discovered (main w dk now tz dir loaded)))) \<and>
            (\<forall>q \<in> set (dc_files (mr_discovered (main w dk now tz dir loaded))).
               \<forall>mtime sz. os_Stat w q = Some (mtime, sz) \<longrightarrow>
                 map_of (Files (pr_cache (mr_processed (main w dk now tz dir loaded)))) q =
                   Some \<lparr>ModTime = mtime, Size = sz,
                         Entries = range_order w (map snd (fst (processFileForCache w q)))\<rparr>))"
proof (intro conjI)
  show "p \<in> set (reparsed w files cache cacheValid) \<longleftrightarrow>
            (\<exists>mtime sz. os_Stat w p = Some (mtime, sz) \<and>
               (\<not> cacheValid \<or> map_of (Files cache) p = None \<or>
                (\<exists>cached. map_of (Files cache) p = Some cached \<and>
                           (ModTime cached \<noteq> mtime \<or> Size cached \<noteq> sz))))"
    using assms
    by (cases "os_Stat w p"; cases "map_of (Files cache) p")
       (auto simp: reparsed_filter fileIsMiss_def isCacheHit_def)
next
  show "\<forall>mtime sz. p \<in> set (reparsed w files cache cacheValid) \<and> os_Stat w p = Some (mtime, sz) \<longrightarrow>
            map_of (Files (pr_cache (processWithCacheLoaded w files cache cacheValid))) p =
              Some \<lparr>ModTime = mtime, Size = sz,
                    Entries = range_order w (map snd (fst (processFileForCache w p)))\<rparr>"
    unfolding processWithCacheLoaded_Files [OF assms]
    by (auto simp: reparsed_filter fileIsMiss_def parsedEntry_def)
next
  show "p \<notin> set (reparsed w files cache cacheValid) \<longrightarrow>
            map_of (Files (pr_cache (processWithCacheLoaded w files cache cacheValid))) p =
              map_of (Files cache) p"
    unfolding processWithCacheLoaded_Files [OF assms] using assms
    by (cases "os_Stat w p") (auto simp: reparsed_filter fileIsMiss_def)
next
  show "loaded = None \<or> (\<exists>c. loaded = Some c \<and> (Version c \<noteq> CacheVersion \<or> Timezone c \<noteq> tz)) \<longrightarrow>
            \<not> mr_cacheValid (main w dk now tz dir loaded) \<and>
            hits (pr_stats (mr_processed (main w dk now tz dir loaded))) = 0 \<and>
            misses (pr_stats (mr_processed (main w dk now tz dir loaded))) =
              length (filter (\<lambda>q. os_Stat w q \<noteq> None)
                        (dc_files (mr_discovered (main w dk now tz dir loaded)))) \<and>
            (\<forall>q \<in> set (dc_files (mr_discovered (main w dk now tz dir loaded))).
               \<forall>mtime sz. os_Stat w q = Some (mtime, sz) \<longrightarrow>
                 map_of (Files (pr_cache (mr_processed (main w dk now tz dir loaded)))) q =
                   Some \<lparr>ModTime = mtime, Size = sz,
                         Entries = range_order w (map snd (fst (processFileForCache w q)))\<rparr>)"
  proof
    assume "loaded = None \<or> (\<exists>c. loaded = Some c \<and> (Version c \<noteq> CacheVersion \<or> Timezone c \<noteq> tz))"
    then have inv: "main_cacheValid loaded tz = False"
      by (auto simp: main_cacheValid_def)
    obtain c' where pr: "mr_processed (main w dk now tz dir loaded) =
       processWithCacheLoaded w (dc_files (mr_discovered (main w dk now tz dir loaded))) c' False"
      using main_processed [of loaded tz w dk now dir] inv by auto
    have fresh: "\<forall>q \<in> set (dc_files (mr_discovered (main w dk now tz dir loaded))).
               \<forall>mtime sz. os_Stat w q = Some (mtime, sz) \<longrightarrow>
                 map_of (Files (pr_cache (mr_processed (main w dk now tz dir loaded)))) q =
                   Some \<lparr>ModTime = mtime, Size = sz,
                         Entries = range_order w (map snd (fst (processFileForCache w q)))\<rparr>"
      unfolding pr
      by (intro ballI allI impI) (simp add: processWithCacheLoaded_Files parsedEntry_def)
    have counts: "hits (pr_stats (mr_processed (main w dk now tz dir loaded))) = 0 \<and>
            misses (pr_stats (mr_processed (main w dk now tz dir loaded))) =
              length (filter (\<lambda>q. os_Stat w q \<noteq> None)
                        (dc_files (mr_discovered (main w dk now tz dir loaded))))"
      unfolding pr processWithCacheLoaded_stats fileIsMiss_invalid' by simp
    from fresh counts inv
    show "\<not> mr_cacheValid (main w dk now tz dir loaded) \<and>
            hits (pr_stats (mr_processed (main w dk now tz dir loaded))) = 0 \<and>
            misses (pr_stats (mr_processed (main w dk now tz dir loaded))) =
              length (filter (\<lambda>q. os_Stat w q \<noteq> None)
                        (dc_files (mr_discovered (main w dk now tz dir loaded)))) \<and>
            (\<forall>q \<in> set (dc_files (mr_discovered (main w dk now tz dir loaded))).
               \<forall>mtime sz. os_Stat w q = Some (mtime, sz) \<longrightarrow>
                 map_of (Files (pr_cache (mr_processed (main w dk now tz dir loaded)))) q =
                   Some \<lparr>ModTime = mtime, Size = sz,
                         Entries = range_order w (map snd (fst (processFileForCache w q)))\<rparr>)"
      by simp
  qed
qed

lemma ex_proj_stat:
  "os_Stat ex_proj_world ''r/a/x.jsonl'' = Some (11, 0)"
  "os_Stat ex_proj_world ''r/a.jsonl'' = Some (12, 200)"
  by (simp_all add: ex_proj_world_def)

lemma ex_proj_parse:
  "range_order ex_proj_world (map snd (fst (processFileForCache ex_proj_world ''r/a.jsonl''))) = [ex_eB]"
  by code_simp

lemma ex_B_parse:
  "range_order ex_world (map snd (fst (processFileForCache ex_world ''B.jsonl''))) = [ex_eB]"
  by code_simp

theorem reparse_iff_witness:
  "''B.jsonl'' \<in> set (reparsed ex_world [''A.jsonl'', ''B.jsonl''] ex_cache True) \<and>
   map_of (Files (pr_cache (processWithCacheLoaded ex_world [''A.jsonl'', ''B.jsonl''] ex_cache True)))
     ''B.jsonl'' = Some \<lparr>ModTime = 2, Size = 20, Entries = [ex_eB]\<rparr> \<and>
   ''A.jsonl'' \<notin> set (reparsed ex_world [''A.jsonl'', ''B.jsonl''] ex_cache True) \<and>
   map_of (Files (pr_cache (processWithCacheLoaded ex_world [''A.jsonl'', ''B.jsonl''] ex_cache True)))
     ''A.jsonl'' = Some \<lparr>ModTime = 1, Size = 10, Entries = [ex_eA]\<rparr> \<and>
   ''r/a.jsonl'' \<notin> set (reparsed ex_dangling_world [''r/a/x.jsonl'', ''r/a.jsonl'']
                          ex_empty_cache True) \<and>
   hits (pr_stats (mr_processed
     (main ex_proj_world ex_disk 360000001000 ''UTC'' ''r'' (Some ex_proj_cache)))) = 2 \<and>
   hits (pr_stats (mr_processed
     (main ex_proj_world ex_disk 360000001000 ''UTC'' ''r''
        (Some (ex_proj_cache\<lparr>Timezone := ''PST''\<rparr>))))) = 0 \<and>
   misses (pr_stats (mr_processed
     (main ex_proj_world ex_disk 360000001000 ''UTC'' ''r''
        (Some (ex_proj_cache\<lparr>Timezone := ''PST''\<rparr>))))) = 2 \<and>
   map_of (Files (pr_cache (mr_processed
     (main ex_proj_world ex_disk 360000001000 ''UTC'' ''r''
        (Some (ex_proj_cache\<lparr>Timezone := ''PST''\<rparr>)))))) ''r/a.jsonl'' =
     Some \<lparr>ModTime = 12, Size = 200, Entries = [ex_eB]\<rparr>"
proof -
  let ?fs = "[''A.jsonl'', ''B.jsonl'']"
  let ?stale = "Some (ex_proj_cache\<lparr>Timezone := ''PST''\<rparr>)"
  let ?M = "main ex_proj_world ex_disk 360000001000 ''UTC'' ''r'' ?stale"
  have inB: "''B.jsonl'' \<in> set ?fs" and inA: "''A.jsonl'' \<in> set ?fs" by simp_all
  have inL: "''r/a.jsonl'' \<in> set [''r/a/x.jsonl'', ''r/a.jsonl'']" by simp
  note tB = reparse_iff [OF inB, of ex_world ex_cache True None "''UTC''" ex_disk 360000001000 "''r''"]
  note tA = reparse_iff [OF inA, of ex_world ex_cache True None "''UTC''" ex_disk 360000001000 "''r''"]
  note tL = reparse_iff [OF inL, of ex_dangling_world ex_empty_cache True None "''UTC''" ex_disk
      360000001000 "''r''"]
  have b: "''B.jsonl'' \<in> set (reparsed ex_world ?fs ex_cache True)"
    unfolding tB [THEN conjunct1] by (simp add: ex_stat ex_cache_def)
  from tB [THEN conjunct2, THEN conjunct1] b ex_stat(2)
  have b': "map_of (Files (pr_cache (processWithCacheLoaded ex_world ?fs ex_cache True))) ''B.jsonl'' =
      Some \<lparr>ModTime = 2, Size = 20, Entries = [ex_eB]\<rparr>"
    by (simp add: ex_B_parse)
  have a: "''A.jsonl'' \<notin> set (reparsed ex_world ?fs ex_cache True)"
    unfolding tA [THEN conjunct1] by (simp add: ex_stat ex_cache_def)
  from tA [THEN conjunct2, THEN conjunct2, THEN conjunct1] a
  have a': "map_of (Files (pr_cache (processWithCacheLoaded ex_world ?fs ex_cache True))) ''A.jsonl'' =
      Some \<lparr>ModTime = 1, Size = 10, Entries = [ex_eA]\<rparr>"
    by (simp add: ex_cache_def)
  have l: "''r/a.jsonl'' \<notin> set (reparsed ex_dangling_world [''r/a/x.jsonl'', ''r/a.jsonl'']
                          ex_empty_cache True)"
    unfolding tL [THEN conjunct1] by (simp add: ex_dangling_world_def)
  have valid: "hits (pr_stats (mr_processed
     (main ex_proj_world ex_disk 360000001000 ''UTC'' ''r'' (Some ex_proj_cache)))) = 2"
    by code_simp
  have stale: "?stale = None \<or> (\<exists>c. ?stale = Some c \<and>
        (Version c \<noteq> CacheVersion \<or> Timezone c \<noteq> ''UTC''))"
    by simp
  note tP = reparse_iff [OF inL, of ex_proj_world ex_proj_cache True ?stale "''UTC''" ex_disk
      360000001000 "''r''"]
  note m = tP [THEN conjunct2, THEN conjunct2, THEN conjunct2, THEN mp, OF stale]
  have found: "dc_files (mr_discovered ?M) = [''r/a/x.jsonl'', ''r/a.jsonl'']"
    by code_simp
  from m [THEN conjunct2, THEN conjunct1]
  have h: "hits (pr_stats (mr_processed ?M)) = 0" .
  from m [THEN conjunct2, THEN conjunct2, THEN conjunct1]
  have ms: "misses (pr_stats (mr_processed ?M)) = 2"
    by (simp add: found ex_proj_stat)
  have "''r/a.jsonl'' \<in> set (dc_files (mr_discovered ?M))"
    by (simp add: found)
  from m [THEN conjunct2, THEN conjunct2, THEN conjunct2, rule_format, OF this ex_proj_stat(2)]
  have e: "map_of (Files (pr_cache (mr_processed ?M))) ''r/a.jsonl'' =
     Some \<lparr>ModTime = 12, Size = 200, Entries = [ex_eB]\<rparr>"
    by (simp add: ex_proj_parse)
  from b b' a a' l valid h ms e show ?thesis by blast
qed


section \<open>The dirty flag and the decision to save (C7)\<close>





















end
